theory Spec2Isabelle
  imports Main "HOL-Library.Char_ord" "HOL-Library.List_Lexorder" "HOL-Library.Product_Lexorder"
    "HOL-Library.AList" "HOL-Library.Multiset"
begin

section \<open>Data model\<close>

text \<open>
  A task is identified by its name, a Python string; names are compared the way Python
  compares strings, lexicographically by character code.
\<close>

type_synonym name = string
type_synonym edge = "name \<times> name"

text \<open>
  The structure node of both converters is a dictionary
  \<^verbatim>\<open>{'type': 'Node', 'name': n}\<close>, \<^verbatim>\<open>{'type': 'Sequence', 'children': [...]}\<close> or
  \<^verbatim>\<open>{'type': 'Parallel', 'children': [...]}\<close>.
\<close>

datatype tree = Node name | Sequence "tree list" | Parallel "tree list"

text \<open>
  The exceptions the two converters can end with. \<open>ValueError\<close> is the
  "Graph contains a cycle" error of \<^verbatim>\<open>generate_component_structure\<close> (the cycle error of
  the specification), \<open>NetworkXUnfeasible\<close> and \<open>RuntimeError\<close> are raised by the graph
  library's layering, \<open>TypeError\<close> is Python's failure on \<^verbatim>\<open>None\<close>.
\<close>

datatype error = ValueError | NetworkXUnfeasible | RuntimeError | TypeError

abbreviation (input) CycleError :: error where
  "CycleError \<equiv> ValueError"

section \<open>mr2dot.py: the flattener\<close>

subsection \<open>\<^verbatim>\<open>extract_nodes\<close>\<close>

fun extract_nodes :: "tree \<Rightarrow> name list" where
  "extract_nodes (Node n) = [n]"
| "extract_nodes (Sequence children) = concat (map extract_nodes children)"
| "extract_nodes (Parallel children) = concat (map extract_nodes children)"

subsection \<open>\<^verbatim>\<open>extract_entry_nodes\<close>\<close>

fun extract_entry_nodes :: "tree \<Rightarrow> name list" where
  "extract_entry_nodes (Node n) = [n]"
| "extract_entry_nodes (Sequence children) =
     (case children of [] \<Rightarrow> [] | child # _ \<Rightarrow> extract_entry_nodes child)"
| "extract_entry_nodes (Parallel children) = concat (map extract_entry_nodes children)"

subsection \<open>\<^verbatim>\<open>generate_edges\<close>\<close>

text \<open>
  The function returns the pair \<^verbatim>\<open>(all_edges, exit_nodes)\<close>. For a Sequence the second
  component is \<^verbatim>\<open>prev_exit_nodes\<close>, which is still \<^verbatim>\<open>None\<close> when the Sequence has no
  child, so the exits are a \<open>name list option\<close>. A Parallel calls
  \<^verbatim>\<open>all_exit_nodes.extend(exit_nodes)\<close>, which raises \<open>TypeError\<close> on \<^verbatim>\<open>None\<close>.

  \<^verbatim>\<open>if prev_exit_nodes:\<close> is false for \<^verbatim>\<open>None\<close> and for the empty list.
\<close>

definition join_edges :: "name list \<Rightarrow> name list \<Rightarrow> edge list" where
  "join_edges prev_exit_nodes entry_nodes =
     concat (map (\<lambda>prev. map (\<lambda>curr. (prev, curr)) entry_nodes) prev_exit_nodes)"

definition truthy :: "name list option \<Rightarrow> bool" where
  "truthy xs = (case xs of None \<Rightarrow> False | Some ys \<Rightarrow> ys \<noteq> [])"

fun generate_edges :: "tree \<Rightarrow> error + (edge list \<times> name list option)"
  and sequence_loop ::
    "tree list \<Rightarrow> edge list \<Rightarrow> name list option \<Rightarrow> error + (edge list \<times> name list option)"
  and parallel_loop ::
    "tree list \<Rightarrow> edge list \<Rightarrow> name list \<Rightarrow> error + (edge list \<times> name list option)"
where
  "generate_edges (Node n) = Inr ([], Some [n])"
| "generate_edges (Sequence children) = sequence_loop children [] None"
| "generate_edges (Parallel children) = parallel_loop children [] []"
| "sequence_loop [] all_edges prev_exit_nodes = Inr (all_edges, prev_exit_nodes)"
| "sequence_loop (child # children) all_edges prev_exit_nodes =
     (case generate_edges child of
        Inl e \<Rightarrow> Inl e
      | Inr (child_edges, exit_nodes) \<Rightarrow>
          sequence_loop children
            (all_edges @ child_edges @
               (if truthy prev_exit_nodes
                then join_edges (the prev_exit_nodes) (extract_entry_nodes child) else []))
            exit_nodes)"
| "parallel_loop [] all_edges all_exit_nodes = Inr (all_edges, Some all_exit_nodes)"
| "parallel_loop (child # children) all_edges all_exit_nodes =
     (case generate_edges child of
        Inl e \<Rightarrow> Inl e
      | Inr (child_edges, None) \<Rightarrow> Inl TypeError
      | Inr (child_edges, Some exit_nodes) \<Rightarrow>
          parallel_loop children (all_edges @ child_edges) (all_exit_nodes @ exit_nodes))"

subsection \<open>\<^verbatim>\<open>convert_to_dot\<close>\<close>

text \<open>
  The node lines are written for \<^verbatim>\<open>sorted(set(all_nodes))\<close>. The edge lines are written in
  the order of \<^verbatim>\<open>all_edges\<close>, an edge being skipped when it is already in
  \<^verbatim>\<open>added_edges\<close>.
\<close>

fun emit_edges :: "edge list \<Rightarrow> edge set \<Rightarrow> edge list" where
  "emit_edges [] added_edges = []"
| "emit_edges (e # all_edges) added_edges =
     (if e \<notin> added_edges then e # emit_edges all_edges (insert e added_edges)
      else emit_edges all_edges added_edges)"

definition node_line :: "name \<Rightarrow> string" where
  "node_line n = ''  '' @ n @ '';'' @ [CHR 0x0A]"

definition edge_line :: "edge \<Rightarrow> string" where
  "edge_line e = ''  '' @ fst e @ '' -> '' @ snd e @ '';'' @ [CHR 0x0A]"

text \<open>
  \<open>flatten\<close> is the graph \<^verbatim>\<open>convert_to_dot\<close> writes: the node names and the edges in the
  order of their lines. \<open>convert_to_dot\<close> is the text itself.
\<close>

definition flatten :: "tree \<Rightarrow> error + (name list \<times> edge list)" where
  "flatten t =
     (let all_nodes = extract_nodes t in
      case generate_edges t of
        Inl e \<Rightarrow> Inl e
      | Inr (all_edges, _) \<Rightarrow>
          Inr (sorted_list_of_set (set all_nodes), emit_edges all_edges {}))"

definition convert_to_dot :: "tree \<Rightarrow> error + string" where
  "convert_to_dot t =
     (case flatten t of
        Inl e \<Rightarrow> Inl e
      | Inr (ns, es) \<Rightarrow>
          Inr (''digraph ExecutionGraph {'' @ [CHR 0x0A] @
               concat (map node_line ns) @ concat (map edge_line es) @
               ''}'' @ [CHR 0x0A]))"

section \<open>The dependency graph\<close>

text \<open>
  \<^verbatim>\<open>dot2mr.py\<close> works on a directed graph of the networkx library, read from a DOT file:
  first every node is added, then every edge. The library keeps nodes and adjacency in
  dictionaries, which iterate in insertion order, so the graph is the list of its nodes and
  the list of its edges, both in the order they were added.
\<close>

record digraph =
  nodes :: "name list"
  edges :: "edge list"

text \<open>
  The representation invariant of the library's graph: a node and an edge are stored once,
  and both ends of an edge are nodes. (A DOT file that repeats an edge is read as a
  multigraph; the invariant leaves parallel edges out.)
\<close>

definition wf_digraph :: "digraph \<Rightarrow> bool" where
  "wf_digraph g \<longleftrightarrow>
     distinct (nodes g) \<and> distinct (edges g) \<and>
     (\<forall>e \<in> set (edges g). fst e \<in> set (nodes g) \<and> snd e \<in> set (nodes g))"

definition successors :: "digraph \<Rightarrow> name \<Rightarrow> name list" where
  "successors g n = map snd (filter (\<lambda>e. fst e = n) (edges g))"

definition predecessors :: "digraph \<Rightarrow> name \<Rightarrow> name list" where
  "predecessors g n = map fst (filter (\<lambda>e. snd e = n) (edges g))"

definition in_degree :: "digraph \<Rightarrow> name \<Rightarrow> int" where
  "in_degree g n = int (length (predecessors g n))"

subsection \<open>\<^verbatim>\<open>networkx.topological_generations\<close>\<close>

text \<open>
  The library function, as \<^verbatim>\<open>generate_component_structure\<close> calls it:
  \<^verbatim>\<open>
  indegree_map = {v: d for v, d in G.in_degree() if d > 0}
  zero_indegree = [v for v, d in G.in_degree() if d == 0]
  while zero_indegree:
      this_generation = zero_indegree
      zero_indegree = []
      for node in this_generation:
          if node not in G:
              raise RuntimeError("Graph changed during iteration")
          for child in G.neighbors(node):
              try:
                  indegree_map[child] -= 1
              except KeyError as err:
                  raise RuntimeError("Graph changed during iteration") from err
              if indegree_map[child] == 0:
                  zero_indegree.append(child)
                  del indegree_map[child]
      yield this_generation
  if indegree_map:
      raise nx.NetworkXUnfeasible(...)
  \<close>
  The dictionary \<^verbatim>\<open>indegree_map\<close> is an association list. The caller collects the
  generations with \<^verbatim>\<open>list(...)\<close>, so an exception leaves no generation behind.
\<close>

type_synonym indegree_state = "(name \<times> int) list \<times> name list"

fun release_child :: "indegree_state \<Rightarrow> name \<Rightarrow> error + indegree_state" where
  "release_child (indegree_map, zero_indegree) child =
     (case map_of indegree_map child of
        None \<Rightarrow> Inl RuntimeError
      | Some d \<Rightarrow>
          (let indegree_map' = AList.update child (d - 1) indegree_map in
           if d - 1 = 0
           then Inr (AList.delete child indegree_map', zero_indegree @ [child])
           else Inr (indegree_map', zero_indegree)))"

fun release_children :: "indegree_state \<Rightarrow> name list \<Rightarrow> error + indegree_state" where
  "release_children st [] = Inr st"
| "release_children st (child # children) =
     (case release_child st child of
        Inl e \<Rightarrow> Inl e
      | Inr st' \<Rightarrow> release_children st' children)"

fun release_generation ::
  "digraph \<Rightarrow> indegree_state \<Rightarrow> name list \<Rightarrow> error + indegree_state" where
  "release_generation g st [] = Inr st"
| "release_generation g st (node # this_generation) =
     (if node \<notin> set (nodes g) then Inl RuntimeError
      else case release_children st (successors g node) of
             Inl e \<Rightarrow> Inl e
           | Inr st' \<Rightarrow> release_generation g st' this_generation)"

lemma length_delete_less:
  "k \<in> fst ` set al \<Longrightarrow> length (AList.delete k al) < length al"
proof (induction al)
  case Nil
  then show ?case by simp
next
  case (Cons p al)
  show ?case
  proof (cases "fst p = k")
    case True
    have "length (AList.delete k al) \<le> length al" by (rule AList.length_delete_le)
    with True show ?thesis by (simp add: less_Suc_eq_le)
  next
    case False
    with Cons show ?thesis by auto
  qed
qed

lemma length_update_present:
  "k \<in> fst ` set al \<Longrightarrow> length (AList.update k v al) = length al"
  by (induction al) auto

lemma release_child_length:
  assumes "release_child (m, z) c = Inr (m', z')"
  shows "length m' + length z' \<le> length m + length z"
proof -
  from assms obtain d where d: "map_of m c = Some d"
    by (auto split: option.splits)
  then have c: "c \<in> fst ` set m"
    by (metis domI dom_map_of_conv_image_fst)
  show ?thesis
  proof (cases "d - 1 = 0")
    case True
    with assms d have "m' = AList.delete c m" "z' = z @ [c]"
      by (auto simp: AList.delete_update_same)
    with length_delete_less[OF c] show ?thesis by simp
  next
    case False
    with assms d have "m' = AList.update c (d - 1) m" "z' = z" by auto
    with length_update_present[OF c] show ?thesis by simp
  qed
qed

lemma release_children_length:
  "release_children st cs = Inr st' \<Longrightarrow>
   length (fst st') + length (snd st') \<le> length (fst st) + length (snd st)"
proof (induction cs arbitrary: st)
  case Nil
  then show ?case by simp
next
  case (Cons c cs)
  then obtain st1 where 1: "release_child st c = Inr st1" and 2: "release_children st1 cs = Inr st'"
    by (auto split: sum.splits)
  from 1 have "length (fst st1) + length (snd st1) \<le> length (fst st) + length (snd st)"
    using release_child_length[of "fst st" "snd st" c "fst st1" "snd st1"] by simp
  with Cons.IH[OF 2] show ?case by simp
qed

lemma release_generation_length:
  "release_generation g st ns = Inr st' \<Longrightarrow>
   length (fst st') + length (snd st') \<le> length (fst st) + length (snd st)"
proof (induction ns arbitrary: st)
  case Nil
  then show ?case by simp
next
  case (Cons n ns)
  then obtain st1 where 1: "release_children st (successors g n) = Inr st1"
    and 2: "release_generation g st1 ns = Inr st'"
    by (auto split: sum.splits if_splits)
  from release_children_length[OF 1] Cons.IH[OF 2] show ?case by simp
qed

text \<open>
  The \<^verbatim>\<open>while zero_indegree:\<close> loop. Every pass that finds a next generation has
  deleted its nodes from \<^verbatim>\<open>indegree_map\<close>, which is why the loop ends.
\<close>

function generations_loop ::
  "digraph \<Rightarrow> (name \<times> int) list \<Rightarrow> name list \<Rightarrow> error + name list list" where
  "generations_loop g indegree_map zero_indegree =
     (if zero_indegree \<noteq> [] then
        (case release_generation g (indegree_map, []) zero_indegree of
           Inl e \<Rightarrow> Inl e
         | Inr (indegree_map', zero_indegree') \<Rightarrow>
             (case generations_loop g indegree_map' zero_indegree' of
                Inl e \<Rightarrow> Inl e
              | Inr generations \<Rightarrow> Inr (zero_indegree # generations)))
      else if indegree_map \<noteq> [] then Inl NetworkXUnfeasible
      else Inr [])"
  by pat_completeness auto
termination
proof (relation "measure (\<lambda>(g, m, z). 2 * length m + (if z = [] then 0 else 1))", goal_cases)
  case 1
  then show ?case by simp
next
  case (2 g m z x2 m' z')
  then have "release_generation g (m, []) z = Inr (m', z')" by simp
  from release_generation_length[OF this]
  have "length m' + length z' \<le> length m" by simp
  then show ?case using 2(1) by (cases z') auto
qed

declare generations_loop.simps [simp del]

definition topological_generations :: "digraph \<Rightarrow> error + name list list" where
  "topological_generations g =
     generations_loop g
       (map (\<lambda>v. (v, in_degree g v)) (filter (\<lambda>v. in_degree g v > 0) (nodes g)))
       (filter (\<lambda>v. in_degree g v = 0) (nodes g))"

section \<open>dot2mr.py: the structurer\<close>

subsection \<open>\<^verbatim>\<open>find_direct_sequence_paths\<close>\<close>

text \<open>
  The \<^verbatim>\<open>while True:\<close> loop that follows a node while it has exactly one successor and
  that successor has exactly one predecessor. Nothing bounds the loop in the source, so
  it is a partial function: \<open>None\<close> is the loop that never leaves.
\<close>

partial_function (option) follow_path :: "digraph \<Rightarrow> name \<Rightarrow> name list \<Rightarrow> name list option" where
  "follow_path graph current path =
     (let succs = successors graph current in
      if length succs \<noteq> 1 then Some path
      else
        let next_node = succs ! 0;
            preds = predecessors graph next_node in
        if length preds \<noteq> 1 then Some path
        else follow_path graph next_node (path @ [next_node]))"

declare follow_path.simps [code]

fun find_direct_sequence_paths_loop ::
  "digraph \<Rightarrow> name list \<Rightarrow> (name \<rightharpoonup> name list) \<Rightarrow> (name \<rightharpoonup> name list) option" where
  "find_direct_sequence_paths_loop graph [] sequence_paths = Some sequence_paths"
| "find_direct_sequence_paths_loop graph (node # start_nodes) sequence_paths =
     (case follow_path graph node [node] of
        None \<Rightarrow> None
      | Some path \<Rightarrow>
          find_direct_sequence_paths_loop graph start_nodes
            (if length path > 1 then sequence_paths(node \<mapsto> path) else sequence_paths))"

definition find_direct_sequence_paths ::
  "digraph \<Rightarrow> name list \<Rightarrow> (name \<rightharpoonup> name list) option" where
  "find_direct_sequence_paths graph start_nodes =
     find_direct_sequence_paths_loop graph start_nodes Map.empty"

type_synonym build_state = "name set \<times> tree list"

subsection \<open>\<^verbatim>\<open>generate_component_structure\<close>\<close>

text \<open>
  The state of the loop over the layers is the set \<^verbatim>\<open>processed_nodes\<close> and the list
  built so far (\<^verbatim>\<open>structure\<close>, or \<^verbatim>\<open>parallel_children\<close> inside a layer).

  \<open>sequence_or_node\<close> is the block the source has twice (for the only node of a layer and
  for the only node of a successor group): the node starts a sequence, which is appended
  as a Sequence of its path, or it is appended alone.
\<close>

definition sequence_or_node :: "digraph \<Rightarrow> name \<Rightarrow> build_state \<Rightarrow> build_state option" where
  "sequence_or_node g node st =
     (case find_direct_sequence_paths g [node] of
        None \<Rightarrow> None
      | Some sequence_paths \<Rightarrow>
          (case sequence_paths node of
             Some path \<Rightarrow>
               Some (fst st \<union> set path, snd st @ [Sequence (map Node path)])
           | None \<Rightarrow> Some (insert node (fst st), snd st @ [Node node])))"

text \<open>
  \<^verbatim>\<open>successor_groups\<close> is a dictionary from the sorted tuple of a node's successors to the
  nodes of the layer that have them, iterated in the order its keys were first seen.
\<close>

fun group_by_successors ::
  "digraph \<Rightarrow> name list \<Rightarrow> (name list \<times> name list) list \<Rightarrow> (name list \<times> name list) list" where
  "group_by_successors g [] successor_groups = successor_groups"
| "group_by_successors g (node # current_layer) successor_groups =
     (let key = sort (successors g node);
          successor_groups1 =
            (if map_of successor_groups key = None
             then AList.update key [] successor_groups else successor_groups)
      in group_by_successors g current_layer
           (AList.map_entry key (\<lambda>ns. ns @ [node]) successor_groups1))"

fun process_groups ::
  "digraph \<Rightarrow> (name list \<times> name list) list \<Rightarrow> build_state \<Rightarrow> build_state option" where
  "process_groups g [] st = Some st"
| "process_groups g ((succ_key, ns) # groups) (processed_nodes, parallel_children) =
     (if length ns = 1 then
        (case sequence_or_node g (ns ! 0) (processed_nodes, parallel_children) of
           None \<Rightarrow> None
         | Some st' \<Rightarrow> process_groups g groups st')
      else process_groups g groups
             (processed_nodes \<union> set ns, parallel_children @ map Node ns))"

fun process_layers ::
  "digraph \<Rightarrow> nat \<Rightarrow> nat \<Rightarrow> name list list \<Rightarrow> build_state \<Rightarrow> build_state option" where
  "process_layers g n i [] st = Some st"
| "process_layers g n i (layer # layers) (processed_nodes, structure) =
     (let current_layer = filter (\<lambda>node. node \<notin> processed_nodes) layer in
      if current_layer = [] then process_layers g n (i + 1) layers (processed_nodes, structure)
      else if length current_layer = 1 \<and> i < n - 1 then
        (case sequence_or_node g (current_layer ! 0) (processed_nodes, structure) of
           None \<Rightarrow> None
         | Some st' \<Rightarrow> process_layers g n (i + 1) layers st')
      else
        (case process_groups g (group_by_successors g current_layer []) (processed_nodes, []) of
           None \<Rightarrow> None
         | Some (processed_nodes', parallel_children) \<Rightarrow>
             process_layers g n (i + 1) layers
               (processed_nodes',
                if length parallel_children > 1 then structure @ [Parallel parallel_children]
                else if length parallel_children = 1 then structure @ [parallel_children ! 0]
                else structure)))"

text \<open>
  The result is \<open>None\<close> when a sequence loop never ends, an error when the layering raises
  (the library's \<open>NetworkXUnfeasible\<close> is caught and raised again as \<open>ValueError\<close>), and
  otherwise what the function returns: \<^verbatim>\<open>None\<close> for a graph with no layer, or a tree.
\<close>

definition generate_component_structure :: "digraph \<Rightarrow> (error + tree option) option" where
  "generate_component_structure component_subgraph =
     (case topological_generations component_subgraph of
        Inl e \<Rightarrow> Some (Inl (if e = NetworkXUnfeasible then ValueError else e))
      | Inr layers \<Rightarrow>
          if layers = [] then Some (Inr None)
          else if length layers = 1 \<and> length (layers ! 0) = 1
          then Some (Inr (Some (Node (layers ! 0 ! 0))))
          else
            (case process_layers component_subgraph (length layers) 0 layers ({}, []) of
               None \<Rightarrow> None
             | Some (processed_nodes, structure) \<Rightarrow>
                 Some (Inr (Some (if length structure = 1 then structure ! 0
                                  else Sequence structure)))))"

subsection \<open>\<^verbatim>\<open>networkx.weakly_connected_components\<close> and \<^verbatim>\<open>subgraph\<close>\<close>

text \<open>
  The library's breadth-first search over successors and predecessors
  (\<^verbatim>\<open>_plain_bfs\<close>): \<^verbatim>\<open>seen\<close> is the component found so far, \<^verbatim>\<open>thislevel\<close> the nodes
  whose neighbours are visited next. Its early exit once every node of the graph is seen
  does not change the set and is left out.
\<close>

fun visit :: "name set \<times> name list \<Rightarrow> name \<Rightarrow> name set \<times> name list" where
  "visit (seen, nextlevel) w =
     (if w \<notin> seen then (insert w seen, nextlevel @ [w]) else (seen, nextlevel))"

definition expand :: "digraph \<Rightarrow> name set \<times> name list \<Rightarrow> name \<Rightarrow> name set \<times> name list" where
  "expand g st v = foldl visit (foldl visit st (successors g v)) (predecessors g v)"

lemma visit_fold:
  "foldl visit (seen, nl) ws = (seen', nl') \<Longrightarrow>
   seen' = seen \<union> set ws \<and> set nl' = set nl \<union> (set ws - seen)"
  by (induction ws arbitrary: seen nl) (auto split: if_splits)

lemma expand_result:
  "expand g (seen, nl) v = (seen', nl') \<Longrightarrow>
   seen' = seen \<union> set (successors g v) \<union> set (predecessors g v) \<and>
   set nl' = set nl \<union> (set (successors g v) \<union> set (predecessors g v) - seen)"
  unfolding expand_def
  apply (cases "foldl visit (seen, nl) (successors g v)")
  apply (auto dest!: visit_fold)
  done

definition neighbours :: "digraph \<Rightarrow> name \<Rightarrow> name set" where
  "neighbours g v = set (successors g v) \<union> set (predecessors g v)"

lemma expand_fold:
  "foldl (expand g) (seen, nl) vs = (seen', nl') \<Longrightarrow>
   seen' = seen \<union> (\<Union>v\<in>set vs. neighbours g v) \<and>
   set nl' = set nl \<union> ((\<Union>v\<in>set vs. neighbours g v) - seen)"
proof (induction vs arbitrary: seen nl)
  case Nil
  then show ?case by simp
next
  case (Cons v vs)
  obtain s1 n1 where 1: "expand g (seen, nl) v = (s1, n1)" by (cases "expand g (seen, nl) v")
  with Cons.prems have 2: "foldl (expand g) (s1, n1) vs = (seen', nl')" by simp
  from expand_result[OF 1] Cons.IH[OF 2] show ?case
    by (auto simp: neighbours_def)
qed

definition endpoints :: "digraph \<Rightarrow> name set" where
  "endpoints g = fst ` set (edges g) \<union> snd ` set (edges g)"

lemma neighbours_endpoints: "neighbours g v \<subseteq> endpoints g"
  by (force simp: neighbours_def endpoints_def successors_def predecessors_def)

function plain_bfs :: "digraph \<Rightarrow> name set \<Rightarrow> name list \<Rightarrow> name set" where
  "plain_bfs g seen thislevel =
     (if thislevel = [] then seen
      else case foldl (expand g) (seen, []) thislevel of
             (seen', nextlevel) \<Rightarrow> plain_bfs g seen' nextlevel)"
  by pat_completeness auto
termination
proof (relation "measure (\<lambda>(g, seen, lvl). 2 * card (endpoints g - seen) + (if lvl = [] then 0 else 1))", goal_cases)
  case 1
  then show ?case by simp
next
  case (2 g seen thislevel seen' nextlevel)
  then have f: "foldl (expand g) (seen, []) thislevel = (seen', nextlevel)" by simp
  from expand_fold[OF f] have s: "seen' = seen \<union> (\<Union>v\<in>set thislevel. neighbours g v)"
    and n: "set nextlevel = (\<Union>v\<in>set thislevel. neighbours g v) - seen" by auto
  have fin: "finite (endpoints g - seen)" by (simp add: endpoints_def)
  have sub: "endpoints g - seen' \<subseteq> endpoints g - seen" using s by auto
  show ?case
  proof (cases "nextlevel = []")
    case True
    with card_mono[OF fin sub] 2(1) show ?thesis by simp
  next
    case False
    then obtain w where w: "w \<in> set nextlevel" by (cases nextlevel) auto
    with n neighbours_endpoints have "w \<in> endpoints g - seen" by auto
    moreover from w n s have "w \<notin> endpoints g - seen'" by auto
    ultimately have "endpoints g - seen' \<subset> endpoints g - seen" using sub by auto
    from psubset_card_mono[OF fin this] show ?thesis by simp
  qed
qed

declare plain_bfs.simps [simp del]

text \<open>
  \<^verbatim>\<open>for v in G: if v not in seen: c = set(_plain_bfs(G, v)); seen.update(c); yield c\<close>
\<close>

fun components_loop :: "digraph \<Rightarrow> name list \<Rightarrow> name set \<Rightarrow> name set list" where
  "components_loop g [] seen = []"
| "components_loop g (v # vs) seen =
     (if v \<notin> seen then
        (let c = plain_bfs g {v} [v] in c # components_loop g vs (seen \<union> c))
      else components_loop g vs seen)"

definition weakly_connected_components :: "digraph \<Rightarrow> name set list" where
  "weakly_connected_components g = components_loop g (nodes g) {}"

text \<open>
  \<^verbatim>\<open>nx_graph.subgraph(component)\<close> is a view of the graph, filtered by the component, a
  Python set. The view keeps the adjacency of the graph, so successors and predecessors
  come in the order of the graph. Its nodes are iterated by the library's
  \<^verbatim>\<open>
  node_ok_shorter = 2 * len(self.NODE_OK.nodes) < len(self._atlas)
  if node_ok_shorter:
      return (n for n in self.NODE_OK.nodes if n in self._atlas)
  return (n for n in self._atlas if self.NODE_OK(n))
  \<close>
  that is, in the order of the graph, unless the component has fewer than half of the
  graph's nodes: then in the order Python iterates over the set. That order is not fixed
  by the language (for strings it changes with the hash seed of the process), so it is a
  parameter of the model: \<open>set_iter\<close> lists the elements of a set. \<open>set_iteration\<close> is
  all that Python promises of it: every element of the set comes once.
\<close>

definition set_iteration :: "(name set \<Rightarrow> name list) \<Rightarrow> bool" where
  "set_iteration set_iter \<longleftrightarrow>
     (\<forall>S. finite S \<longrightarrow> set (set_iter S) = S \<and> distinct (set_iter S))"

definition subgraph :: "(name set \<Rightarrow> name list) \<Rightarrow> digraph \<Rightarrow> name set \<Rightarrow> digraph" where
  "subgraph set_iter g component =
     \<lparr>nodes =
        (if 2 * card component < length (nodes g)
         then filter (\<lambda>n. n \<in> set (nodes g)) (set_iter component)
         else filter (\<lambda>n. n \<in> component) (nodes g)),
      edges = filter (\<lambda>e. fst e \<in> component \<and> snd e \<in> component) (edges g)\<rparr>"

subsection \<open>\<^verbatim>\<open>main\<close>\<close>

text \<open>
  \<open>dot2mr_main\<close> is the specification's \<open>structure\<close>: the tree \<^verbatim>\<open>main\<close> hands to
  \<^verbatim>\<open>format_structure\<close>. A cycle in a component ends the program with the error before
  anything is printed. \<open>Inr None\<close> is the "Empty graph" message. \<^verbatim>\<open>format_structure\<close>
  raises \<open>TypeError\<close> on a component structure that is \<^verbatim>\<open>None\<close>.
\<close>

fun component_structures_loop ::
  "(name set \<Rightarrow> name list) \<Rightarrow> digraph \<Rightarrow> name set list \<Rightarrow> tree option list \<Rightarrow>
   (error + tree option list) option" where
  "component_structures_loop set_iter g [] component_structures = Some (Inr component_structures)"
| "component_structures_loop set_iter g (component # components) component_structures =
     (case generate_component_structure (subgraph set_iter g component) of
        None \<Rightarrow> None
      | Some (Inl e) \<Rightarrow> Some (Inl e)
      | Some (Inr component_struct) \<Rightarrow>
          component_structures_loop set_iter g components
            (component_structures @ [component_struct]))"

definition dot2mr_main ::
  "(name set \<Rightarrow> name list) \<Rightarrow> digraph \<Rightarrow> (error + tree option) option" where
  "dot2mr_main set_iter g =
     (case component_structures_loop set_iter g (weakly_connected_components g) [] of
        None \<Rightarrow> None
      | Some (Inl e) \<Rightarrow> Some (Inl e)
      | Some (Inr component_structures) \<Rightarrow>
          if length component_structures > 1 then
            (case those component_structures of
               None \<Rightarrow> Some (Inl TypeError)
             | Some children \<Rightarrow> Some (Inr (Some (Parallel children))))
          else if length component_structures = 1 then
            (case component_structures ! 0 of
               None \<Rightarrow> Some (Inl TypeError)
             | Some final_structure \<Rightarrow> Some (Inr (Some final_structure)))
          else Some (Inr None))"

section \<open>The graphs of the specification's examples\<close>

definition diamond :: digraph where
  "diamond =
     \<lparr>nodes = [''A'', ''B'', ''C'', ''D''],
      edges = [(''A'', ''B''), (''A'', ''C''), (''B'', ''D''), (''C'', ''D'')]\<rparr>"


definition triangle :: digraph where
  "triangle =
     \<lparr>nodes = [''A'', ''B'', ''C''],
      edges = [(''A'', ''B''), (''B'', ''C''), (''C'', ''A'')]\<rparr>"

definition single :: digraph where
  "single = \<lparr>nodes = [''A''], edges = []\<rparr>"

text \<open>
  A graph shaped like the letter N: C depends on A and B, D on B alone.
\<close>

definition n_graph :: digraph where
  "n_graph =
     \<lparr>nodes = [''A'', ''B'', ''C'', ''D''],
      edges = [(''A'', ''C''), (''B'', ''C''), (''B'', ''D'')]\<rparr>"


text \<open>
  A run that hangs off a fork: P is followed by A and by D, A by B, and B by C.
\<close>

definition fork :: digraph where
  "fork =
     \<lparr>nodes = [''P'', ''A'', ''B'', ''C'', ''D''],
      edges = [(''P'', ''A''), (''P'', ''D''), (''A'', ''B''), (''B'', ''C'')]\<rparr>"


section \<open>Properties of trees and graphs\<close>

text \<open>A tree has no singleton wrapper when no Sequence and no Parallel in it has exactly one child.\<close>

fun no_singleton :: "tree \<Rightarrow> bool" where
  "no_singleton (Node n) = True"
| "no_singleton (Sequence children) =
     (length children \<noteq> 1 \<and> (\<forall>c \<in> set children. no_singleton c))"
| "no_singleton (Parallel children) =
     (length children \<noteq> 1 \<and> (\<forall>c \<in> set children. no_singleton c))"

text \<open>
  The specification's Sequence and Parallel have at least one child. \<open>edges_of\<close> and
  \<open>exits_of\<close> name the two components of what \<open>generate_edges\<close> returns.
\<close>

fun nonempty_children :: "tree \<Rightarrow> bool" where
  "nonempty_children (Node n) = True"
| "nonempty_children (Sequence children) =
     (children \<noteq> [] \<and> (\<forall>c \<in> set children. nonempty_children c))"
| "nonempty_children (Parallel children) =
     (children \<noteq> [] \<and> (\<forall>c \<in> set children. nonempty_children c))"

definition edges_of :: "tree \<Rightarrow> edge list" where
  "edges_of t = (case generate_edges t of Inr (all_edges, _) \<Rightarrow> all_edges | Inl _ \<Rightarrow> [])"

definition exits_of :: "tree \<Rightarrow> name list" where
  "exits_of t = (case generate_edges t of Inr (_, Some exit_nodes) \<Rightarrow> exit_nodes | _ \<Rightarrow> [])"

definition returns_exits :: "tree \<Rightarrow> bool" where
  "returns_exits t \<longleftrightarrow> generate_edges t = Inr (edges_of t, Some (exits_of t)) \<and> exits_of t \<noteq> []"

text \<open>
  The edges a Sequence's loop adds for its children, given the exits of the child before
  the first: each child's own edges, then the join from the exits before it to its
  entries.
\<close>

fun sequence_edges :: "name list option \<Rightarrow> tree list \<Rightarrow> edge list" where
  "sequence_edges prev [] = []"
| "sequence_edges prev (c # cs) =
     edges_of c @
     (if truthy prev then join_edges (the prev) (extract_entry_nodes c) else []) @
     sequence_edges (Some (exits_of c)) cs"




text \<open>
  Two stored graphs are the same graph when they have the same nodes and the same edges,
  in whatever order these were added.

  The shape of a tree forgets the order of the children of every Parallel, and keeps
  everything else: the children of a Parallel become a multiset. \<open>outcome_shape\<close> does so
  for the tree in an outcome of the structurer, and leaves an error or the empty graph as
  it is.
\<close>

definition same_graph :: "digraph \<Rightarrow> digraph \<Rightarrow> bool" where
  "same_graph g1 g2 \<longleftrightarrow> set (nodes g1) = set (nodes g2) \<and> set (edges g1) = set (edges g2)"




section \<open>Invariants of the structurer\<close>

subsection \<open>The layering\<close>

text \<open>
  \<open>pending g R v\<close> counts the edges into \<open>v\<close> that are not in the set \<open>R\<close> of released
  edges; \<open>out_edges g D\<close> are the edges that leave a node of \<open>D\<close>.
\<close>

definition pending :: "digraph \<Rightarrow> edge set \<Rightarrow> name \<Rightarrow> nat" where
  "pending g R v = card {e \<in> set (edges g). snd e = v \<and> e \<notin> R}"

definition out_edges :: "digraph \<Rightarrow> name set \<Rightarrow> edge set" where
  "out_edges g D = {e \<in> set (edges g). fst e \<in> D}"

text \<open>
  The invariant of \<^verbatim>\<open>indegree_map\<close> when the edges \<open>R\<close> have been released: its keys are
  the nodes with a pending edge, its values their numbers of pending edges. With it,
  \<^verbatim>\<open>zero_indegree\<close> holds, once each, the nodes whose last edge was released since \<open>B\<close>.
\<close>

definition indegree_inv :: "digraph \<Rightarrow> edge set \<Rightarrow> (name \<times> int) list \<Rightarrow> bool" where
  "indegree_inv g R m \<longleftrightarrow>
     (\<forall>v. map_of m v =
        (if v \<in> set (nodes g) \<and> pending g R v > 0 then Some (int (pending g R v)) else None))"

definition zero_inv :: "digraph \<Rightarrow> edge set \<Rightarrow> edge set \<Rightarrow> indegree_state \<Rightarrow> bool" where
  "zero_inv g B R st \<longleftrightarrow>
     indegree_inv g R (fst st) \<and> distinct (snd st) \<and>
     set (snd st) = {v \<in> set (nodes g). pending g R v = 0 \<and> pending g B v > 0}"

text \<open>
  At the head of the \<^verbatim>\<open>while\<close> loop, with \<open>D\<close> the nodes of the generations already
  yielded: the next generation \<open>z\<close> holds exactly the other nodes whose predecessors are
  all in \<open>D\<close>.
\<close>

definition loop_inv :: "digraph \<Rightarrow> name set \<Rightarrow> (name \<times> int) list \<Rightarrow> name list \<Rightarrow> bool" where
  "loop_inv g D m z \<longleftrightarrow>
     indegree_inv g (out_edges g D) m \<and> distinct z \<and> set z \<inter> D = {} \<and> D \<subseteq> set (nodes g) \<and>
     D \<union> set z = {v \<in> set (nodes g). pending g (out_edges g D) v = 0}"

text \<open>
  \<open>forward g D layers\<close>: each layer holds exactly the nodes, not in \<open>D\<close> or an earlier
  layer, whose predecessors all lie in \<open>D\<close> or in earlier layers.
  \<open>layering g D layers\<close>: the layers hold every node outside \<open>D\<close> once, none is empty, and
  they are forward. \<open>layer_of layers v\<close> is the index of the layer of \<open>v\<close>.
\<close>

fun forward :: "digraph \<Rightarrow> name set \<Rightarrow> name list list \<Rightarrow> bool" where
  "forward g D [] = True"
| "forward g D (layer # layers) =
     (set layer = {v \<in> set (nodes g) - D. set (predecessors g v) \<subseteq> D} \<and>
      forward g (D \<union> set layer) layers)"

definition layering :: "digraph \<Rightarrow> name set \<Rightarrow> name list list \<Rightarrow> bool" where
  "layering g D layers \<longleftrightarrow>
     distinct (concat layers) \<and> set (concat layers) = set (nodes g) - D \<and>
     forward g D layers \<and> [] \<notin> set layers"

definition layer_of :: "name list list \<Rightarrow> name \<Rightarrow> nat" where
  "layer_of layers v = length (takeWhile (\<lambda>layer. v \<notin> set layer) layers)"

subsection \<open>Sequence runs\<close>

text \<open>
  \<open>run g current p\<close>: \<open>p\<close> is the run from \<open>current\<close>, the nodes the \<^verbatim>\<open>while True\<close> loop
  appends: each is the only successor of the node before it and has it as its only
  predecessor, and after the last node the loop breaks. \<open>item s p\<close> is the tree appended for
  the start node \<open>s\<close> with run \<open>p\<close>.
\<close>

fun run :: "digraph \<Rightarrow> name \<Rightarrow> name list \<Rightarrow> bool" where
  "run g current [] \<longleftrightarrow>
     \<not> (length (successors g current) = 1 \<and>
        length (predecessors g (successors g current ! 0)) = 1)"
| "run g current (n # ns) \<longleftrightarrow>
     successors g current = [n] \<and> predecessors g n = [current] \<and> run g n ns"

definition item :: "name \<Rightarrow> name list \<Rightarrow> tree" where
  "item s p = (if p = [] then Node s else Sequence (map Node (s # p)))"

text \<open>
  \<open>closed_upto g layers i P\<close>: a processed node beyond layer \<open>i\<close> was reached by a run, so
  it has a single predecessor, which is processed too. \<open>fresh_run\<close> is what a run from an
  unprocessed node of layer \<open>i\<close> satisfies.
\<close>

definition closed_upto :: "digraph \<Rightarrow> name list list \<Rightarrow> nat \<Rightarrow> name set \<Rightarrow> bool" where
  "closed_upto g layers i P \<longleftrightarrow>
     (\<forall>v \<in> P. layer_of layers v \<le> i \<or> (\<exists>u \<in> P. predecessors g v = [u]))"

definition fresh_run :: "digraph \<Rightarrow> name list list \<Rightarrow> nat \<Rightarrow> name set \<Rightarrow> name \<Rightarrow> name list \<Rightarrow> bool" where
  "fresh_run g layers i P s p \<longleftrightarrow>
     (\<forall>k < length p. predecessors g (p ! k) = [(s # p) ! k]) \<and> distinct (s # p) \<and>
     (\<forall>v \<in> set p. i < layer_of layers v) \<and> set p \<subseteq> set (nodes g) \<and> set p \<inter> P = {}"

abbreviation leaves :: "tree list \<Rightarrow> name list" where
  "leaves ts \<equiv> concat (map extract_nodes ts)"

subsection \<open>The loop over the layers\<close>

text \<open>
  \<open>item_ok g P t\<close>: an edge of the graph into a leaf of \<open>t\<close> is an edge of the flattened
  \<open>t\<close> or comes from \<open>P\<close>. \<open>group_inv\<close> is the invariant of the loop over the successor
  groups of layer \<open>i\<close>, \<open>P0\<close> being the nodes processed before the layer; \<open>layers_inv\<close> is
  the invariant of the loop over the layers.
\<close>

definition item_ok :: "digraph \<Rightarrow> name set \<Rightarrow> tree \<Rightarrow> bool" where
  "item_ok g P t \<longleftrightarrow>
     (\<forall>e \<in> set (edges g). snd e \<in> set (extract_nodes t) \<longrightarrow> e \<in> set (edges_of t) \<or> fst e \<in> P)"

definition group_inv ::
  "digraph \<Rightarrow> name list list \<Rightarrow> nat \<Rightarrow> name set \<Rightarrow> build_state \<Rightarrow> bool" where
  "group_inv g layers i P0 st \<longleftrightarrow>
     distinct (leaves (snd st)) \<and> fst st = P0 \<union> set (leaves (snd st)) \<and>
     P0 \<inter> set (leaves (snd st)) = {} \<and> fst st \<subseteq> set (nodes g) \<and>
     closed_upto g layers i (fst st) \<and>
     (\<forall>c \<in> set (snd st). nonempty_children c \<and> item_ok g P0 c)"

definition layers_inv :: "digraph \<Rightarrow> name list list \<Rightarrow> nat \<Rightarrow> build_state \<Rightarrow> bool" where
  "layers_inv g layers i st \<longleftrightarrow>
     distinct (leaves (snd st)) \<and> fst st = set (leaves (snd st)) \<and>
     fst st \<subseteq> set (nodes g) \<and> closed_upto g layers i (fst st) \<and>
     set (concat (take i layers)) \<subseteq> fst st \<and>
     (\<forall>k < length (snd st).
        nonempty_children (snd st ! k) \<and> item_ok g (set (leaves (take k (snd st)))) (snd st ! k))"

text \<open>
  \<open>component_tree g t\<close>: the leaves of \<open>t\<close> are the nodes of \<open>g\<close>, each once, and every
  edge of \<open>g\<close> is a path of the flattened \<open>t\<close>.
\<close>

definition component_tree :: "digraph \<Rightarrow> tree \<Rightarrow> bool" where
  "component_tree g t \<longleftrightarrow>
     nonempty_children t \<and> distinct (extract_nodes t) \<and>
     set (extract_nodes t) = set (nodes g) \<and> set (edges g) \<subseteq> (set (edges_of t))\<^sup>+"

subsection \<open>Weakly connected components\<close>

text \<open>
  \<open>reach g v\<close> is the weakly connected component of \<open>v\<close>: the nodes joined to \<open>v\<close> by
  edges taken in either direction. \<open>bfs_inv\<close> is the invariant of the search.
\<close>

definition adjacent :: "digraph \<Rightarrow> (name \<times> name) set" where
  "adjacent g = set (edges g) \<union> (set (edges g))\<inverse>"

definition reach :: "digraph \<Rightarrow> name \<Rightarrow> name set" where
  "reach g v = {w. (v, w) \<in> (adjacent g)\<^sup>*}"

definition bfs_inv :: "digraph \<Rightarrow> name \<Rightarrow> name set \<Rightarrow> name list \<Rightarrow> bool" where
  "bfs_inv g v seen lvl \<longleftrightarrow>
     v \<in> seen \<and> set lvl \<subseteq> seen \<and> seen \<subseteq> reach g v \<and>
     (\<forall>x \<in> seen - set lvl. neighbours g x \<subseteq> seen)"

fun disjoint_list :: "name set list \<Rightarrow> bool" where
  "disjoint_list [] = True"
| "disjoint_list (c # cs) = ((\<forall>d \<in> set cs. c \<inter> d = {}) \<and> disjoint_list cs)"

subsection \<open>Independence of the insertion order\<close>








section \<open>The structurer wraps no single child\<close>

lemma find_direct_sequence_paths_single:
  "find_direct_sequence_paths g [node] = Some sp \<Longrightarrow>
   \<exists>path. follow_path g node [node] = Some path \<and>
     sp = (if length path > 1 then [node \<mapsto> path] else Map.empty)"
  by (auto simp: find_direct_sequence_paths_def split: option.splits)

lemma sequence_or_node_cases:
  assumes "sequence_or_node g node (P, xs) = Some (P', xs')"
  obtains path where "follow_path g node [node] = Some path" "length path > 1"
      "P' = P \<union> set path" "xs' = xs @ [Sequence (map Node path)]"
  | path where "follow_path g node [node] = Some path" "length path \<le> 1"
      "P' = insert node P" "xs' = xs @ [Node node]"
proof -
  from assms obtain sp where sp: "find_direct_sequence_paths g [node] = Some sp"
    by (auto simp: sequence_or_node_def split: option.splits)
  from find_direct_sequence_paths_single[OF sp] obtain path where
    p: "follow_path g node [node] = Some path"
    and e: "sp = (if length path > 1 then [node \<mapsto> path] else Map.empty)" by blast
  show thesis
  proof (cases "length path > 1")
    case True
    with assms sp e have "P' = P \<union> set path" "xs' = xs @ [Sequence (map Node path)]"
      by (auto simp: sequence_or_node_def)
    with that(1)[OF p True] show ?thesis by blast
  next
    case False
    with assms sp e have "P' = insert node P" "xs' = xs @ [Node node]"
      by (auto simp: sequence_or_node_def)
    with that(2)[OF p] False show ?thesis by auto
  qed
qed

lemma sequence_or_node_no_singleton:
  assumes "sequence_or_node g node (P, xs) = Some (P', xs')" "\<forall>t \<in> set xs. no_singleton t"
  shows "\<forall>t \<in> set xs'. no_singleton t"
  using assms(1)
proof (cases rule: sequence_or_node_cases)
  case (1 path)
  with assms(2) show ?thesis by auto
next
  case (2 path)
  with assms(2) show ?thesis by auto
qed

lemma process_groups_no_singleton:
  "process_groups g groups st = Some st' \<Longrightarrow> \<forall>t \<in> set (snd st). no_singleton t \<Longrightarrow>
   \<forall>t \<in> set (snd st'). no_singleton t"
proof (induction g groups st rule: process_groups.induct)
  case (1 g st)
  then show ?case by simp
next
  case (2 g succ_key ns groups P xs)
  show ?case
  proof (cases "length ns = 1")
    case True
    with "2.prems"(1) obtain P1 xs1 where
      s: "sequence_or_node g (ns ! 0) (P, xs) = Some (P1, xs1)"
      and r: "process_groups g groups (P1, xs1) = Some st'"
      by (auto split: option.splits)
    from sequence_or_node_no_singleton[OF s] "2.prems"(2)
    have "\<forall>t \<in> set xs1. no_singleton t" by simp
    with "2.IH"(1)[OF True s r] show ?thesis by simp
  next
    case False
    with "2.prems"(1) have r: "process_groups g groups (P \<union> set ns, xs @ map Node ns) = Some st'"
      by simp
    have "\<forall>t \<in> set (snd (P \<union> set ns, xs @ map Node ns)). no_singleton t"
      using "2.prems"(2) by auto
    from "2.IH"(2)[OF False r this] show ?thesis .
  qed
qed

lemma process_layers_no_singleton:
  "process_layers g n i layers st = Some st' \<Longrightarrow> \<forall>t \<in> set (snd st). no_singleton t \<Longrightarrow>
   \<forall>t \<in> set (snd st'). no_singleton t"
proof (induction g n i layers st rule: process_layers.induct)
  case (1 g n i st)
  then show ?case by simp
next
  case (2 g n i layer layers P xs)
  define cur where "cur = filter (\<lambda>node. node \<notin> P) layer"
  consider (empty) "cur = []"
    | (one) "cur \<noteq> []" "length cur = 1 \<and> i < n - 1"
    | (many) "cur \<noteq> []" "\<not> (length cur = 1 \<and> i < n - 1)" by blast
  then show ?case
  proof cases
    case empty
    with "2.prems" "2.IH"(1)[OF cur_def] show ?thesis by (simp add: cur_def)
  next
    case one
    with "2.prems"(1) obtain P1 xs1 where
      s: "sequence_or_node g (cur ! 0) (P, xs) = Some (P1, xs1)"
      and r: "process_layers g n (i + 1) layers (P1, xs1) = Some st'"
      by (auto simp: cur_def split: option.splits)
    from sequence_or_node_no_singleton[OF s] "2.prems"(2)
    have "\<forall>t \<in> set xs1. no_singleton t" by simp
    with "2.IH"(2)[OF cur_def one s r] show ?thesis by simp
  next
    case many
    with "2.prems"(1) obtain P1 pc where
      s: "process_groups g (group_by_successors g cur []) (P, []) = Some (P1, pc)"
      and r: "process_layers g n (i + 1) layers
               (P1, if length pc > 1 then xs @ [Parallel pc]
                    else if length pc = 1 then xs @ [pc ! 0] else xs) = Some st'"
      by (auto simp: cur_def split: option.splits)
    from process_groups_no_singleton[OF s] have pc: "\<forall>t \<in> set pc. no_singleton t" by simp
    have "\<forall>t \<in> set (if length pc > 1 then xs @ [Parallel pc]
                    else if length pc = 1 then xs @ [pc ! 0] else xs). no_singleton t"
      using pc "2.prems"(2) by auto
    with "2.IH"(3)[OF cur_def many(1) many(2) s refl r] show ?thesis by simp
  qed
qed

lemma generate_component_structure_no_singleton:
  assumes "generate_component_structure g = Some (Inr (Some t))"
  shows "no_singleton t"
proof -
  from assms obtain layers where l: "topological_generations g = Inr layers"
    by (auto simp: generate_component_structure_def split: sum.splits)
  show ?thesis
  proof (cases "layers = [] \<or> (length layers = 1 \<and> length (layers ! 0) = 1)")
    case True
    with assms l show ?thesis
      by (auto simp: generate_component_structure_def split: if_splits)
  next
    case False
    with assms l obtain P xs where
      p: "process_layers g (length layers) 0 layers ({}, []) = Some (P, xs)"
      and t: "t = (if length xs = 1 then xs ! 0 else Sequence xs)"
      by (auto simp: generate_component_structure_def split: option.splits if_splits)
    from process_layers_no_singleton[OF p] have "\<forall>t \<in> set xs. no_singleton t" by simp
    with t show ?thesis by auto
  qed
qed

lemma component_structures_loop_no_singleton:
  "component_structures_loop set_iter g cs acc = Some (Inr res) \<Longrightarrow>
   \<forall>t. Some t \<in> set acc \<longrightarrow> no_singleton t \<Longrightarrow>
   \<forall>t. Some t \<in> set res \<longrightarrow> no_singleton t"
proof (induction cs arbitrary: acc)
  case Nil
  then show ?case by simp
next
  case (Cons c cs)
  from Cons.prems(1) obtain s where
    s: "generate_component_structure (subgraph set_iter g c) = Some (Inr s)"
    and r: "component_structures_loop set_iter g cs (acc @ [s]) = Some (Inr res)"
    by (auto split: option.splits sum.splits)
  have "\<forall>t. Some t \<in> set (acc @ [s]) \<longrightarrow> no_singleton t"
    using Cons.prems(2) generate_component_structure_no_singleton s by auto
  from Cons.IH[OF r this] show ?case .
qed

lemma those_Some_set: "those xs = Some ys \<Longrightarrow> set xs = Some ` set ys"
  by (induction xs arbitrary: ys) (auto split: option.splits)

lemma those_Some_length: "those xs = Some ys \<Longrightarrow> length ys = length xs"
  by (induction xs arbitrary: ys) (auto split: option.splits)

lemma dot2mr_main_no_singleton:
  assumes "dot2mr_main set_iter g = Some (Inr (Some t))"
  shows "no_singleton t"
proof -
  from assms obtain res where
    r: "component_structures_loop set_iter g (weakly_connected_components g) [] = Some (Inr res)"
    by (auto simp: dot2mr_main_def split: option.splits sum.splits)
  from component_structures_loop_no_singleton[OF r]
  have ns: "\<forall>t. Some t \<in> set res \<longrightarrow> no_singleton t" by simp
  show ?thesis
  proof (cases "length res > 1")
    case True
    with assms r obtain children where c: "those res = Some children" and t: "t = Parallel children"
      by (auto simp: dot2mr_main_def split: option.splits)
    from those_Some_set[OF c] ns have "\<forall>c \<in> set children. no_singleton c" by auto
    with t True those_Some_length[OF c] show ?thesis by simp
  next
    case False
    with assms r have "length res = 1" "res ! 0 = Some t"
      by (auto simp: dot2mr_main_def split: option.splits if_splits)
    then have "Some t \<in> set res" by (metis nth_mem zero_less_one)
    with ns show ?thesis by simp
  qed
qed

section \<open>What the flattener's helpers return\<close>

lemma returns_exitsI:
  "generate_edges t = Inr (es, Some xs) \<Longrightarrow> xs \<noteq> [] \<Longrightarrow> returns_exits t"
  by (simp add: returns_exits_def edges_of_def exits_of_def)

lemma sequence_loop_returns:
  "\<forall>c \<in> set cs. returns_exits c \<Longrightarrow>
   sequence_loop cs acc prev =
     Inr (acc @ sequence_edges prev cs, if cs = [] then prev else Some (exits_of (last cs)))"
proof (induction cs arbitrary: acc prev)
  case Nil
  then show ?case by simp
next
  case (Cons c cs)
  then have c: "generate_edges c = Inr (edges_of c, Some (exits_of c))"
    by (simp add: returns_exits_def)
  from Cons.prems have "\<forall>c \<in> set cs. returns_exits c" by simp
  note IH = Cons.IH[OF this]
  show ?case by (simp add: c IH)
qed

lemma parallel_loop_returns:
  "\<forall>c \<in> set cs. returns_exits c \<Longrightarrow>
   parallel_loop cs acc xs =
     Inr (acc @ concat (map edges_of cs), Some (xs @ concat (map exits_of cs)))"
proof (induction cs arbitrary: acc xs)
  case Nil
  then show ?case by simp
next
  case (Cons c cs)
  then have c: "generate_edges c = Inr (edges_of c, Some (exits_of c))"
    by (simp add: returns_exits_def)
  from Cons.prems have "\<forall>c \<in> set cs. returns_exits c" by simp
  note IH = Cons.IH[OF this]
  show ?case by (simp add: c IH)
qed

lemma nonempty_children_returns: "nonempty_children t \<Longrightarrow> returns_exits t"
proof (induction t)
  case (Node n)
  show ?case by (rule returns_exitsI[where xs = "[n]"]) simp_all
next
  case (Sequence cs)
  then have all: "\<forall>c \<in> set cs. returns_exits c" and ne: "cs \<noteq> []" by auto
  then have "returns_exits (last cs)" by simp
  then have "exits_of (last cs) \<noteq> []" by (simp add: returns_exits_def)
  with sequence_loop_returns[OF all, of "[]" None] ne show ?case
    by (intro returns_exitsI[where xs = "exits_of (last cs)"]) simp_all
next
  case (Parallel cs)
  then have all: "\<forall>c \<in> set cs. returns_exits c" and ne: "cs \<noteq> []" by auto
  then obtain c where "c \<in> set cs" by (cases cs) auto
  with all have "c \<in> set cs" "exits_of c \<noteq> []" by (auto simp: returns_exits_def)
  then have "concat (map exits_of cs) \<noteq> []" by auto
  with parallel_loop_returns[OF all, of "[]" "[]"] show ?case
    by (intro returns_exitsI[where xs = "concat (map exits_of cs)"]) simp_all
qed

lemma set_join_edges: "set (join_edges xs ys) = set xs \<times> set ys"
  by (auto simp: join_edges_def)

lemma set_sequence_edges:
  "\<forall>c \<in> set cs. exits_of c \<noteq> [] \<Longrightarrow>
   set (sequence_edges prev cs) =
     (\<Union>c \<in> set cs. set (edges_of c)) \<union>
     (if truthy prev \<and> cs \<noteq> [] then set (the prev) \<times> set (extract_entry_nodes (hd cs)) else {}) \<union>
     (\<Union>i \<in> {..<length cs - 1}. set (exits_of (cs ! i)) \<times> set (extract_entry_nodes (cs ! (i + 1))))"
proof (induction cs arbitrary: prev)
  case Nil
  then show ?case by simp
next
  case (Cons c cs)
  then have IH: "set (sequence_edges (Some (exits_of c)) cs) =
     (\<Union>c \<in> set cs. set (edges_of c)) \<union>
     (if cs \<noteq> [] then set (exits_of c) \<times> set (extract_entry_nodes (hd cs)) else {}) \<union>
     (\<Union>i \<in> {..<length cs - 1}. set (exits_of (cs ! i)) \<times> set (extract_entry_nodes (cs ! (i + 1))))"
    by (simp add: truthy_def)
  have idx: "(\<Union>i \<in> {..<length (c # cs) - 1}.
        set (exits_of ((c # cs) ! i)) \<times> set (extract_entry_nodes ((c # cs) ! (i + 1)))) =
     (if cs \<noteq> [] then set (exits_of c) \<times> set (extract_entry_nodes (hd cs)) else {}) \<union>
     (\<Union>i \<in> {..<length cs - 1}. set (exits_of (cs ! i)) \<times> set (extract_entry_nodes (cs ! (i + 1))))"
  proof (cases cs)
    case Nil
    then show ?thesis by simp
  next
    case (Cons d ds)
    have "{..<length (c # cs) - 1} = insert 0 (Suc ` {..<length cs - 1})"
      using Cons by (auto simp: lessThan_Suc_eq_insert_0)
    then show ?thesis using Cons by (simp add: hd_conv_nth)
  qed
  show ?case unfolding idx by (simp add: IH set_join_edges Un_ac)
qed

section \<open>What \<open>convert_to_dot\<close> writes\<close>

lemma remdups_snoc: "remdups (ys @ [e]) = remdups (filter (\<lambda>y. y \<noteq> e) ys) @ [e]"
  by (induction ys) auto

lemma emit_edges_first_occurrence:
  "emit_edges xs A = rev (remdups (rev (filter (\<lambda>e. e \<notin> A) xs)))"
proof (induction xs arbitrary: A)
  case Nil
  then show ?case by simp
next
  case (Cons e xs)
  show ?case
  proof (cases "e \<in> A")
    case True
    then show ?thesis by (simp add: Cons.IH)
  next
    case False
    have "filter (\<lambda>y. y \<noteq> e) (rev (filter (\<lambda>e. e \<notin> A) xs)) = rev (filter (\<lambda>x. x \<notin> insert e A) xs)"
      by (simp add: rev_filter[symmetric] conj_commute)
    with False show ?thesis by (simp add: Cons.IH remdups_snoc)
  qed
qed

lemma flatten_result:
  assumes "flatten t = Inr (ns, es)"
  shows "sorted ns \<and> distinct ns \<and> set ns = set (extract_nodes t) \<and>
         distinct es \<and> set es = set (edges_of t) \<and> es = rev (remdups (rev (edges_of t)))"
proof -
  from assms obtain all_edges x where g: "generate_edges t = Inr (all_edges, x)"
    and ns: "ns = sorted_list_of_set (set (extract_nodes t))"
    and es: "es = emit_edges all_edges {}"
    by (auto simp: flatten_def split: sum.splits)
  from g have "edges_of t = all_edges" by (simp add: edges_of_def)
  with es have e: "es = rev (remdups (rev (edges_of t)))"
    by (simp add: emit_edges_first_occurrence)
  then have "distinct es" "set es = set (edges_of t)" by simp_all
  with ns e show ?thesis by simp
qed

section \<open>When the flattener returns\<close>





section \<open>When the flattener fails\<close>





section \<open>The layering is sound and complete\<close>

lemma pending_mono: "R \<subseteq> R' \<Longrightarrow> pending g R' v \<le> pending g R v"
  unfolding pending_def by (intro card_mono) auto

lemma pending_insert_other:
  "snd e \<noteq> v \<Longrightarrow> pending g (insert e R) v = pending g R v"
  unfolding pending_def by (intro arg_cong[where f = card]) auto

lemma pending_insert_same:
  assumes "e \<in> set (edges g)" "e \<notin> R"
  shows "pending g R (snd e) = Suc (pending g (insert e R) (snd e))"
proof -
  have "{e' \<in> set (edges g). snd e' = snd e \<and> e' \<notin> R} =
        insert e {e' \<in> set (edges g). snd e' = snd e \<and> e' \<notin> insert e R}"
    using assms by auto
  then show ?thesis unfolding pending_def by simp
qed

lemma pending_zero_iff:
  "pending g R v = 0 \<longleftrightarrow> (\<forall>e \<in> set (edges g). snd e = v \<longrightarrow> e \<in> R)"
  unfolding pending_def by (auto simp: card_eq_0_iff)

lemma release_child_inv:
  assumes inv: "zero_inv g B R st" and sub: "B \<subseteq> R"
    and e: "(u, c) \<in> set (edges g)" "(u, c) \<notin> R" and c: "c \<in> set (nodes g)"
  shows "\<exists>st'. release_child st c = Inr st' \<and> zero_inv g B (insert (u, c) R) st'"
proof -
  obtain m zero where st: "st = (m, zero)" by (cases st)
  let ?R' = "insert (u, c) R"
  from pending_insert_same[OF e] have p: "pending g R c = Suc (pending g ?R' c)" by simp
  from inv st have m: "indegree_inv g R m" and dz: "distinct zero"
    and sz: "set zero = {v \<in> set (nodes g). pending g R v = 0 \<and> pending g B v > 0}"
    by (simp_all add: zero_inv_def)
  from m c p have look: "map_of m c = Some (int (pending g R c))"
    by (simp add: indegree_inv_def)
  have other: "\<And>v. v \<noteq> c \<Longrightarrow> pending g ?R' v = pending g R v"
    by (rule pending_insert_other) simp
  from pending_mono[OF sub, of g c] p have pb: "pending g B c > 0" by simp
  from p sz have cz: "c \<notin> set zero" by simp
  show ?thesis
  proof (cases "pending g ?R' c = 0")
    case True
    with p look st have r: "release_child st c = Inr (AList.delete c m, zero @ [c])"
      by (simp add: AList.delete_update_same)
    have "indegree_inv g ?R' (AList.delete c m)"
      unfolding indegree_inv_def
    proof
      fix v
      show "map_of (AList.delete c m) v =
        (if v \<in> set (nodes g) \<and> pending g ?R' v > 0 then Some (int (pending g ?R' v)) else None)"
        using m True other[of v] by (cases "v = c") (simp_all add: AList.delete_conv' indegree_inv_def)
    qed
    moreover have "set (zero @ [c]) = {v \<in> set (nodes g). pending g ?R' v = 0 \<and> pending g B v > 0}"
    proof (rule set_eqI)
      fix v
      show "v \<in> set (zero @ [c]) \<longleftrightarrow>
            v \<in> {v \<in> set (nodes g). pending g ?R' v = 0 \<and> pending g B v > 0}"
      proof (cases "v = c")
        case True
        with \<open>pending g ?R' c = 0\<close> pb c show ?thesis by simp
      next
        case False
        with other[OF False] sz show ?thesis by simp
      qed
    qed
    ultimately show ?thesis using r dz cz by (simp add: zero_inv_def)
  next
    case False
    with p look st have r: "release_child st c = Inr (AList.update c (int (pending g R c) - 1) m, zero)"
      by simp
    have "indegree_inv g ?R' (AList.update c (int (pending g R c) - 1) m)"
      unfolding indegree_inv_def
    proof
      fix v
      show "map_of (AList.update c (int (pending g R c) - 1) m) v =
        (if v \<in> set (nodes g) \<and> pending g ?R' v > 0 then Some (int (pending g ?R' v)) else None)"
        using m False other[of v] p c
        by (cases "v = c") (simp_all add: AList.update_conv' indegree_inv_def)
    qed
    moreover have "set zero = {v \<in> set (nodes g). pending g ?R' v = 0 \<and> pending g B v > 0}"
    proof (rule set_eqI)
      fix v
      show "v \<in> set zero \<longleftrightarrow>
            v \<in> {v \<in> set (nodes g). pending g ?R' v = 0 \<and> pending g B v > 0}"
      proof (cases "v = c")
        case True
        with \<open>pending g ?R' c \<noteq> 0\<close> cz show ?thesis by simp
      next
        case False
        with other[OF False] sz show ?thesis by simp
      qed
    qed
    ultimately show ?thesis using r dz by (simp add: zero_inv_def)
  qed
qed

lemma release_children_inv:
  assumes "zero_inv g B R st" "B \<subseteq> R" "distinct cs"
    "\<forall>c \<in> set cs. (u, c) \<in> set (edges g) \<and> (u, c) \<notin> R \<and> c \<in> set (nodes g)"
  shows "\<exists>st'. release_children st cs = Inr st' \<and> zero_inv g B (R \<union> {u} \<times> set cs) st'"
  using assms
proof (induction cs arbitrary: R st)
  case Nil
  then show ?case by simp
next
  case (Cons c cs)
  from Cons.prems have e: "(u, c) \<in> set (edges g)" "(u, c) \<notin> R" "c \<in> set (nodes g)" by auto
  from release_child_inv[OF Cons.prems(1,2) e] obtain st1 where
    1: "release_child st c = Inr st1" and i1: "zero_inv g B (insert (u, c) R) st1" by blast
  have "\<forall>c' \<in> set cs. (u, c') \<in> set (edges g) \<and> (u, c') \<notin> insert (u, c) R \<and> c' \<in> set (nodes g)"
    using Cons.prems(3,4) by auto
  from Cons.IH[OF i1 _ _ this] Cons.prems(2,3) obtain st' where
    2: "release_children st1 cs = Inr st'"
    and i2: "zero_inv g B (insert (u, c) R \<union> {u} \<times> set cs) st'" by auto
  have "insert (u, c) R \<union> {u} \<times> set cs = R \<union> {u} \<times> set (c # cs)" by auto
  with 1 2 i2 show ?case by simp
qed

lemma distinct_successors: "distinct (edges g) \<Longrightarrow> distinct (successors g u)"
  unfolding successors_def by (auto simp: distinct_map inj_on_def prod_eq_iff)


lemma set_successors: "set (successors g u) = {v. (u, v) \<in> set (edges g)}"
  unfolding successors_def by force

lemma set_predecessors: "set (predecessors g v) = {u. (u, v) \<in> set (edges g)}"
  unfolding predecessors_def by force

lemma out_edges_single: "{u} \<times> set (successors g u) = out_edges g {u}"
  unfolding out_edges_def set_successors by auto

lemma out_edges_Un: "out_edges g (A \<union> B) = out_edges g A \<union> out_edges g B"
  unfolding out_edges_def by auto

lemma out_edges_insert: "out_edges g (insert u A) = out_edges g {u} \<union> out_edges g A"
  unfolding out_edges_def by auto

lemma release_generation_inv:
  assumes "wf_digraph g" "zero_inv g B R st" "B \<subseteq> R" "distinct gen" "set gen \<subseteq> set (nodes g)"
    "out_edges g (set gen) \<inter> R = {}"
  shows "\<exists>st'. release_generation g st gen = Inr st' \<and>
           zero_inv g B (R \<union> out_edges g (set gen)) st'"
  using assms(2-)
proof (induction gen arbitrary: R st)
  case Nil
  then show ?case by (simp add: out_edges_def)
next
  case (Cons u gen)
  from assms(1) have wf: "distinct (edges g)"
    "\<And>e. e \<in> set (edges g) \<Longrightarrow> snd e \<in> set (nodes g)" by (auto simp: wf_digraph_def)
  have cs: "\<forall>c \<in> set (successors g u). (u, c) \<in> set (edges g) \<and> (u, c) \<notin> R \<and> c \<in> set (nodes g)"
  proof
    fix c assume "c \<in> set (successors g u)"
    then have e: "(u, c) \<in> set (edges g)" by (simp add: set_successors)
    then have "(u, c) \<in> out_edges g (set (u # gen))" by (simp add: out_edges_def)
    with Cons.prems(5) have "(u, c) \<notin> R" by auto
    with e wf(2)[OF e] show "(u, c) \<in> set (edges g) \<and> (u, c) \<notin> R \<and> c \<in> set (nodes g)" by simp
  qed
  from release_children_inv[OF Cons.prems(1,2) distinct_successors[OF wf(1)] cs]
  obtain st1 where 1: "release_children st (successors g u) = Inr st1"
    and i1: "zero_inv g B (R \<union> out_edges g {u}) st1" by (auto simp: out_edges_single)
  have d: "out_edges g (set gen) \<inter> (R \<union> out_edges g {u}) = {}"
    using Cons.prems(3,5) by (auto simp: out_edges_def)
  from Cons.prems have "B \<subseteq> R \<union> out_edges g {u}" "distinct gen" "set gen \<subseteq> set (nodes g)" by auto
  from Cons.IH[OF i1 this d] obtain st' where
    2: "release_generation g st1 gen = Inr st'"
    and i2: "zero_inv g B (R \<union> out_edges g {u} \<union> out_edges g (set gen)) st'" by blast
  have "R \<union> out_edges g {u} \<union> out_edges g (set gen) = R \<union> out_edges g (set (u # gen))"
    by (auto simp: out_edges_def)
  with 1 2 i2 Cons.prems(4) show ?case by simp
qed

lemma loop_inv_step:
  assumes wf: "wf_digraph g" and inv: "loop_inv g D m z"
  shows "\<exists>m' z'. release_generation g (m, []) z = Inr (m', z') \<and> loop_inv g (D \<union> set z) m' z'"
proof -
  let ?R = "out_edges g D"
  from inv have m: "indegree_inv g ?R m" and dz: "distinct z" and zD: "set z \<inter> D = {}"
    and DV: "D \<subseteq> set (nodes g)"
    and Dz: "D \<union> set z = {v \<in> set (nodes g). pending g ?R v = 0}"
    by (simp_all add: loop_inv_def)
  have z0: "zero_inv g ?R ?R (m, [])" using m by (auto simp: zero_inv_def)
  from Dz have zV: "set z \<subseteq> set (nodes g)" by auto
  have disj: "out_edges g (set z) \<inter> ?R = {}" using zD by (auto simp: out_edges_def)
  from release_generation_inv[OF wf z0 subset_refl dz zV disj] obtain st' where
    r: "release_generation g (m, []) z = Inr st'"
    and i: "zero_inv g ?R (?R \<union> out_edges g (set z)) st'" by blast
  obtain m' z' where st': "st' = (m', z')" by (cases st')
  let ?D' = "D \<union> set z"
  have R': "?R \<union> out_edges g (set z) = out_edges g ?D'" by (simp add: out_edges_Un)
  from i st' R' have m': "indegree_inv g (out_edges g ?D') m'" and dz': "distinct z'"
    and sz': "set z' = {v \<in> set (nodes g). pending g (out_edges g ?D') v = 0 \<and> pending g ?R v > 0}"
    by (simp_all add: zero_inv_def)
  have mono: "\<And>v. pending g (out_edges g ?D') v \<le> pending g ?R v"
    by (rule pending_mono) (auto simp: out_edges_def)
  have 1: "set z' \<inter> ?D' = {}" using sz' Dz by auto
  have 2: "?D' \<union> set z' = {v \<in> set (nodes g). pending g (out_edges g ?D') v = 0}"
  proof (rule set_eqI)
    fix v
    show "v \<in> ?D' \<union> set z' \<longleftrightarrow> v \<in> {v \<in> set (nodes g). pending g (out_edges g ?D') v = 0}"
    proof (cases "pending g ?R v = 0")
      case True
      with mono[of v] have "pending g (out_edges g ?D') v = 0" by simp
      with True Dz sz' show ?thesis by auto
    next
      case False
      with Dz have "v \<notin> ?D'" by auto
      with False sz' show ?thesis by auto
    qed
  qed
  from m' dz' 1 2 DV zV have "loop_inv g ?D' m' z'" by (simp add: loop_inv_def)
  with r st' show ?thesis by simp
qed

lemma stuck_not_acyclic:
  assumes wf: "wf_digraph g" and inv: "loop_inv g D m []" and m: "m \<noteq> []"
  shows "\<not> acyclic (set (edges g))"
proof
  assume ac: "acyclic (set (edges g))"
  let ?S = "set (nodes g) - D"
  from inv have mi: "indegree_inv g (out_edges g D) m"
    and Dz: "\<And>v. v \<in> D \<longleftrightarrow> v \<in> set (nodes g) \<and> pending g (out_edges g D) v = 0"
    by (auto simp: loop_inv_def)
  from m obtain v d where "map_of m v = Some d"
  proof (cases m)
    case Nil
    with m show ?thesis by simp
  next
    case (Cons p ps)
    then have "map_of m (fst p) = Some (snd p)" by simp
    with that show ?thesis .
  qed
  with mi have "v \<in> set (nodes g)" "pending g (out_edges g D) v > 0"
    by (auto simp: indegree_inv_def split: if_splits)
  with Dz[of v] have ne: "v \<in> ?S" by simp
  have "wf (set (edges g))" using ac by (intro finite_acyclic_wf) simp_all
  from wfE_min[OF this ne] obtain x where x: "x \<in> ?S"
    and min: "\<And>y. (y, x) \<in> set (edges g) \<Longrightarrow> y \<notin> ?S" by blast
  from x Dz[of x] have "pending g (out_edges g D) x \<noteq> 0" by simp
  then obtain e where e: "e \<in> set (edges g)" "snd e = x" "e \<notin> out_edges g D"
    by (auto simp: pending_zero_iff)
  then have "fst e \<notin> D" by (simp add: out_edges_def)
  moreover from wf e(1) have "fst e \<in> set (nodes g)" by (simp add: wf_digraph_def)
  moreover from e have "(fst e, x) \<in> set (edges g)" by auto
  ultimately show False using min[of "fst e"] by simp
qed

lemma generations_loop_correct:
  "wf_digraph g \<Longrightarrow> loop_inv g D m z \<Longrightarrow>
    (\<exists>layers. generations_loop g m z = Inr layers \<and> layering g D layers) \<or>
    (generations_loop g m z = Inl NetworkXUnfeasible \<and> \<not> acyclic (set (edges g)))"
proof (induction g m z arbitrary: D rule: generations_loop.induct)
  case (1 g m z)
  note wf = "1.prems"(1) and inv = "1.prems"(2)
  show ?case
  proof (cases "z = []")
    case True
    show ?thesis
    proof (cases "m = []")
      case False
      with True have "generations_loop g m z = Inl NetworkXUnfeasible"
        by (subst generations_loop.simps) simp
      with stuck_not_acyclic[OF wf] inv True False show ?thesis by simp
    next
      case m: True
      with True have r: "generations_loop g m z = Inr []"
        by (subst generations_loop.simps) simp
      from inv m True have "\<forall>v \<in> set (nodes g). pending g (out_edges g D) v = 0"
        by (auto simp: loop_inv_def indegree_inv_def split: if_splits)
      with inv True have "D = set (nodes g)" by (auto simp: loop_inv_def)
      then have "layering g D []" by (simp add: layering_def)
      with r show ?thesis by simp
    qed
  next
    case False
    from loop_inv_step[OF wf inv] obtain m' z' where
      r: "release_generation g (m, []) z = Inr (m', z')"
      and inv': "loop_inv g (D \<union> set z) m' z'" by blast
    have eq: "generations_loop g m z =
        (case generations_loop g m' z' of Inl e \<Rightarrow> Inl e | Inr gens \<Rightarrow> Inr (z # gens))"
      using False r by (subst generations_loop.simps) simp
    from "1.IH"[OF False r refl wf inv']
    show ?thesis
    proof
      assume "\<exists>layers. generations_loop g m' z' = Inr layers \<and> layering g (D \<union> set z) layers"
      then obtain layers where l: "generations_loop g m' z' = Inr layers"
        and lay: "layering g (D \<union> set z) layers" by blast
      from inv have dz: "distinct z" and zD: "set z \<inter> D = {}"
        and Dz: "D \<union> set z = {v \<in> set (nodes g). pending g (out_edges g D) v = 0}"
        by (simp_all add: loop_inv_def)
      have pz: "\<And>v. pending g (out_edges g D) v = 0 \<longleftrightarrow> set (predecessors g v) \<subseteq> D"
        by (auto simp: pending_zero_iff out_edges_def set_predecessors)
      have preds: "set z = {v \<in> set (nodes g) - D. set (predecessors g v) \<subseteq> D}"
        using Dz zD unfolding pz by auto
      from Dz have zV: "set z \<subseteq> set (nodes g)" by auto
      from lay dz zD zV preds False have "layering g D (z # layers)"
        by (auto simp: layering_def)
      with eq l show ?thesis by simp
    next
      assume "generations_loop g m' z' = Inl NetworkXUnfeasible \<and> \<not> acyclic (set (edges g))"
      with eq show ?thesis by simp
    qed
  qed
qed

lemma map_of_tabulate:
  "map_of (map (\<lambda>v. (v, f v)) xs) v = (if v \<in> set xs then Some (f v) else None)"
  by (induction xs) auto

lemma pending_empty:
  assumes d: "distinct (edges g)"
  shows "int (pending g {} v) = in_degree g v"
proof -
  have "pending g {} v = card (set (filter (\<lambda>e. snd e = v) (edges g)))"
    unfolding pending_def by (rule arg_cong[where f = card]) auto
  also have "\<dots> = length (filter (\<lambda>e. snd e = v) (edges g))"
    by (rule distinct_card) (simp add: d)
  finally show ?thesis by (simp add: in_degree_def predecessors_def)
qed

lemma loop_inv_initial:
  assumes "wf_digraph g"
  shows "loop_inv g {}
           (map (\<lambda>v. (v, in_degree g v)) (filter (\<lambda>v. in_degree g v > 0) (nodes g)))
           (filter (\<lambda>v. in_degree g v = 0) (nodes g))"
proof -
  from assms have d: "distinct (edges g)" "distinct (nodes g)" by (simp_all add: wf_digraph_def)
  have o: "out_edges g {} = {}" by (simp add: out_edges_def)
  note p = pending_empty[OF d(1), symmetric]
  show ?thesis
    unfolding loop_inv_def o indegree_inv_def map_of_tabulate
    using d(2) by (auto simp: p)
qed

theorem topological_generations_correct:
  assumes "wf_digraph g"
  shows "(\<exists>layers. topological_generations g = Inr layers \<and> layering g {} layers) \<or>
    (topological_generations g = Inl NetworkXUnfeasible \<and> \<not> acyclic (set (edges g)))"
  unfolding topological_generations_def
  by (rule generations_loop_correct[OF assms loop_inv_initial[OF assms]])

lemma layer_of_Cons:
  "layer_of (layer # layers) v = (if v \<in> set layer then 0 else Suc (layer_of layers v))"
  by (simp add: layer_of_def)

lemma layer_of_less: "v \<in> set (concat layers) \<Longrightarrow> layer_of layers v < length layers"
  by (induction layers) (auto simp: layer_of_Cons)

lemma layer_of_nth:
  "distinct (concat layers) \<Longrightarrow> i < length layers \<Longrightarrow> v \<in> set (layers ! i) \<Longrightarrow>
   layer_of layers v = i"
proof (induction layers arbitrary: i)
  case Nil
  then show ?case by simp
next
  case (Cons layer layers)
  show ?case
  proof (cases i)
    case 0
    with Cons.prems show ?thesis by (simp add: layer_of_Cons)
  next
    case (Suc j)
    with Cons.prems have j: "j < length layers" "v \<in> set (layers ! j)" by simp_all
    then have "v \<in> set (concat layers)" by (auto intro: nth_mem)
    with Cons.prems(1) have "v \<notin> set layer" by auto
    moreover from Cons.IH[OF _ j] Cons.prems(1) have "layer_of layers v = j" by simp
    ultimately show ?thesis using Suc by (simp add: layer_of_Cons)
  qed
qed

lemma forward_Cons:
  assumes "forward g D (layer # layers)"
  shows "\<forall>v \<in> set layer. set (predecessors g v) \<subseteq> D" "forward g (D \<union> set layer) layers"
  using assms by auto

lemma forward_edge:
  "forward g D layers \<Longrightarrow> (u, v) \<in> set (edges g) \<Longrightarrow> v \<in> set (concat layers) \<Longrightarrow>
   u \<in> D \<or> layer_of layers u < layer_of layers v"
proof (induction layers arbitrary: D)
  case Nil
  then show ?case by simp
next
  case (Cons layer layers)
  note F = forward_Cons[OF Cons.prems(1)]
  show ?case
  proof (cases "v \<in> set layer")
    case True
    with F(1) Cons.prems(2) show ?thesis by (auto simp: set_predecessors)
  next
    case False
    with Cons.prems(3) have "v \<in> set (concat layers)" by simp
    from Cons.IH[OF F(2) Cons.prems(2) this] False show ?thesis
      by (auto simp: layer_of_Cons)
  qed
qed

lemma layering_edge:
  assumes "wf_digraph g" "layering g {} layers" "(u, v) \<in> set (edges g)"
  shows "layer_of layers u < layer_of layers v" "layer_of layers v < length layers"
proof -
  from assms(1,3) have "v \<in> set (nodes g)" by (force simp: wf_digraph_def)
  with assms(2) have v: "v \<in> set (concat layers)" by (simp add: layering_def)
  from assms(2) have "forward g {} layers" by (simp add: layering_def)
  from forward_edge[OF this assms(3) v] show "layer_of layers u < layer_of layers v" by simp
  from layer_of_less[OF v] show "layer_of layers v < length layers" .
qed

lemma layering_acyclic:
  assumes "wf_digraph g" "layering g {} layers"
  shows "acyclic (set (edges g))"
proof -
  have "acyclic ((set (edges g))\<inverse>)"
    by (rule acyclicI_order[where f = "layer_of layers"]) (auto dest: layering_edge(1)[OF assms])
  then show ?thesis by simp
qed

theorem topological_generations_acyclic:
  assumes "wf_digraph g"
  shows "acyclic (set (edges g)) \<longleftrightarrow> (\<exists>layers. topological_generations g = Inr layers)"
    and "\<not> acyclic (set (edges g)) \<longleftrightarrow> topological_generations g = Inl NetworkXUnfeasible"
  using topological_generations_correct[OF assms] layering_acyclic[OF assms] by auto

lemma topological_generations_layering:
  assumes "wf_digraph g" "topological_generations g = Inr layers"
  shows "layering g {} layers"
  using topological_generations_correct[OF assms(1)] assms(2) by auto

section \<open>Sequence runs end, and are new\<close>

lemma length_one_conv: "length xs = 1 \<longleftrightarrow> xs = [xs ! 0]"
  by (cases xs) auto

lemma follow_path_run:
  assumes wf: "wf_digraph g" and lay: "layering g {} layers"
  shows "\<exists>p. follow_path g current path = Some (path @ p) \<and> run g current p"
proof (induction "length layers - layer_of layers current" arbitrary: current path rule: less_induct)
  case less
  show ?case
  proof (cases "length (successors g current) = 1 \<and>
        length (predecessors g (successors g current ! 0)) = 1")
    case False
    then have "follow_path g current path = Some path"
      by (subst follow_path.simps) (auto simp: Let_def)
    with False show ?thesis by (intro exI[of _ "[]"]) simp
  next
    case True
    define n where "n = successors g current ! 0"
    from True have s: "successors g current = [n]"
      unfolding n_def by (simp add: length_one_conv[symmetric])
    then have e: "(current, n) \<in> set (edges g)"
      using set_successors[of g current] by auto
    from True have "predecessors g n = [predecessors g n ! 0]"
      unfolding n_def by (simp add: length_one_conv[symmetric])
    moreover from e have "current \<in> set (predecessors g n)" by (simp add: set_predecessors)
    ultimately have p: "predecessors g n = [current]"
      by (metis empty_iff empty_set set_ConsD)
    from layering_edge[OF wf lay e]
    have "length layers - layer_of layers n < length layers - layer_of layers current" by simp
    from less[OF this, of "path @ [n]"] obtain q where
      q: "follow_path g n (path @ [n]) = Some ((path @ [n]) @ q)" "run g n q" by blast
    have "follow_path g current path = follow_path g n (path @ [n])"
      using True by (subst follow_path.simps) (simp add: Let_def n_def)
    with q s p show ?thesis by (intro exI[of _ "n # q"]) simp
  qed
qed

lemma run_pred:
  "run g s p \<Longrightarrow> k < length p \<Longrightarrow> predecessors g (p ! k) = [(s # p) ! k]"
proof (induction p arbitrary: s k)
  case Nil
  then show ?case by simp
next
  case (Cons n ns)
  then show ?case by (cases k) auto
qed

lemma run_edge:
  "run g s p \<Longrightarrow> k < length p \<Longrightarrow> ((s # p) ! k, p ! k) \<in> set (edges g)"
proof -
  assume "run g s p" "k < length p"
  from run_pred[OF this] have "(s # p) ! k \<in> set (predecessors g (p ! k))" by simp
  then show ?thesis by (simp add: set_predecessors)
qed

lemma run_layer:
  assumes wf: "wf_digraph g" and lay: "layering g {} layers"
  shows "run g s p \<Longrightarrow> v \<in> set p \<Longrightarrow> layer_of layers s < layer_of layers v"
proof (induction p arbitrary: s)
  case Nil
  then show ?case by simp
next
  case (Cons n ns)
  then have "(s, n) \<in> set (edges g)" using run_edge[of g s "n # ns" 0] by simp
  from layering_edge(1)[OF wf lay this] have 1: "layer_of layers s < layer_of layers n" .
  show ?case
  proof (cases "v = n")
    case True
    with 1 show ?thesis by simp
  next
    case False
    with Cons.prems have "run g n ns" "v \<in> set ns" by simp_all
    from Cons.IH[OF this] 1 show ?thesis by simp
  qed
qed

lemma run_distinct:
  assumes wf: "wf_digraph g" and lay: "layering g {} layers"
  shows "run g s p \<Longrightarrow> distinct (s # p)"
proof (induction p arbitrary: s)
  case Nil
  then show ?case by simp
next
  case (Cons n ns)
  then have "run g n ns" by simp
  from Cons.IH[OF this] have "distinct (n # ns)" .
  moreover have "s \<notin> set (n # ns)" using run_layer[OF wf lay Cons.prems] by fastforce
  ultimately show ?case by simp
qed

lemma run_nodes:
  assumes wf: "wf_digraph g"
  shows "run g s p \<Longrightarrow> set p \<subseteq> set (nodes g)"
proof
  fix v assume r: "run g s p" and "v \<in> set p"
  then obtain k where k: "k < length p" "v = p ! k" by (auto simp: in_set_conv_nth)
  from run_edge[OF r k(1)] wf k(2) show "v \<in> set (nodes g)" by (force simp: wf_digraph_def)
qed

lemma closed_upto_mono: "closed_upto g layers i P \<Longrightarrow> i \<le> j \<Longrightarrow> closed_upto g layers j P"
  unfolding closed_upto_def by (meson le_trans)

lemma run_fresh:
  assumes wf: "wf_digraph g" and lay: "layering g {} layers" and cl: "closed_upto g layers i P"
  shows "run g s p \<Longrightarrow> s \<notin> P \<Longrightarrow> i \<le> layer_of layers s \<Longrightarrow> set p \<inter> P = {}"
proof (induction p arbitrary: s)
  case Nil
  then show ?case by simp
next
  case (Cons n ns)
  then have p: "predecessors g n = [s]" and r: "run g n ns" by simp_all
  from run_layer[OF wf lay Cons.prems(1), of n] Cons.prems(3)
  have l: "i < layer_of layers n" by simp
  have n: "n \<notin> P"
  proof
    assume "n \<in> P"
    with cl l obtain u where "u \<in> P" "predecessors g n = [u]"
      unfolding closed_upto_def by fastforce
    with p Cons.prems(2) show False by simp
  qed
  from Cons.IH[OF r n] l have "set ns \<inter> P = {}" by simp
  with n show ?case by simp
qed

lemma run_closed:
  assumes "closed_upto g layers i P" "run g s p" "layer_of layers s \<le> i"
  shows "closed_upto g layers i (P \<union> set (s # p))"
  unfolding closed_upto_def
proof
  fix v assume "v \<in> P \<union> set (s # p)"
  then consider "v \<in> P" | "v = s" | "v \<in> set p" by auto
  then show "layer_of layers v \<le> i \<or> (\<exists>u \<in> P \<union> set (s # p). predecessors g v = [u])"
  proof cases
    case 1
    with assms(1) show ?thesis unfolding closed_upto_def by blast
  next
    case 2
    with assms(3) show ?thesis by simp
  next
    case 3
    then obtain k where k: "k < length p" "v = p ! k" by (auto simp: in_set_conv_nth)
    from run_pred[OF assms(2) k(1)] k have "predecessors g v = [(s # p) ! k]" by simp
    moreover from k(1) have "(s # p) ! k \<in> set (s # p)" by (intro nth_mem) simp
    ultimately show ?thesis by blast
  qed
qed

lemma extract_nodes_map_Node: "concat (map extract_nodes (map Node path)) = path"
  by (induction path) auto

lemma extract_nodes_item: "extract_nodes (item s p) = s # p"
  using extract_nodes_map_Node[of "s # p"] by (simp add: item_def)

lemma sequence_or_node_run:
  assumes wf: "wf_digraph g" and lay: "layering g {} layers"
  shows "\<exists>p. run g s p \<and> sequence_or_node g s (P, xs) = Some (P \<union> set (s # p), xs @ [item s p])"
proof -
  from follow_path_run[OF wf lay, of s "[s]"] obtain p where
    f: "follow_path g s [s] = Some (s # p)" and r: "run g s p" by auto
  have "sequence_or_node g s (P, xs) = Some (P \<union> set (s # p), xs @ [item s p])"
    by (cases p) (simp_all add: sequence_or_node_def find_direct_sequence_paths_def f item_def)
  with r show ?thesis by blast
qed

lemma fresh_run_Nil: "fresh_run g layers i P s []"
  by (simp add: fresh_run_def)

lemma run_chain:
  assumes "wf_digraph g" "layering g {} layers" "closed_upto g layers i P"
    "run g s p" "s \<notin> P" "layer_of layers s = i"
  shows "fresh_run g layers i P s p"
  unfolding fresh_run_def
  using run_pred[OF assms(4)] run_distinct[OF assms(1,2,4)] run_layer[OF assms(1,2,4)]
    run_nodes[OF assms(1,4)] run_fresh[OF assms(1,2,3,4,5)] assms(6)
  by auto

lemma returns_exits_Node: "returns_exits (Node n)"
  by (rule returns_exitsI[where xs = "[n]"]) simp_all

lemma exits_of_Node: "exits_of (Node n) = [n]" and edges_of_Node: "edges_of (Node n) = []"
  by (simp_all add: exits_of_def edges_of_def)

lemma sequence_edges_Nodes:
  "sequence_edges (Some [a]) (map Node path) = zip (a # path) path"
  by (induction path arbitrary: a)
     (simp_all add: edges_of_Node exits_of_Node truthy_def join_edges_def)

lemma edges_of_item: "edges_of (item s p) = zip (s # p) p"
proof (cases p)
  case Nil
  then show ?thesis by (simp add: item_def edges_of_Node)
next
  case (Cons n ns)
  have all: "\<forall>c \<in> set (map Node (s # p)). returns_exits c"
    by (auto simp: returns_exits_Node)
  from sequence_loop_returns[OF all, of "[]" None]
  have "edges_of (Sequence (map Node (s # p))) = sequence_edges None (map Node (s # p))"
    by (simp add: edges_of_def)
  also have "\<dots> = sequence_edges (Some [s]) (map Node p)"
    by (simp add: edges_of_Node exits_of_Node truthy_def)
  also have "\<dots> = zip (s # p) p" by (rule sequence_edges_Nodes)
  finally show ?thesis using Cons by (simp add: item_def)
qed

lemma nonempty_children_item: "nonempty_children (item s p)"
  by (auto simp: item_def)

lemma item_ok_item:
  assumes "fresh_run g layers i P s p" "set (predecessors g s) \<subseteq> P0"
  shows "item_ok g P0 (item s p)"
  unfolding item_ok_def
proof (intro ballI impI)
  fix e assume e: "e \<in> set (edges g)" and "snd e \<in> set (extract_nodes (item s p))"
  then consider "snd e = s" | "snd e \<in> set p" by (auto simp: extract_nodes_item)
  then show "e \<in> set (edges_of (item s p)) \<or> fst e \<in> P0"
  proof cases
    case 1
    with e have "fst e \<in> set (predecessors g s)" by (auto simp: set_predecessors)
    with assms(2) show ?thesis by auto
  next
    case 2
    then obtain k where k: "k < length p" "snd e = p ! k" by (auto simp: in_set_conv_nth)
    with assms(1) have "predecessors g (snd e) = [(s # p) ! k]" by (simp add: fresh_run_def)
    moreover from e have "fst e \<in> set (predecessors g (snd e))" by (auto simp: set_predecessors)
    ultimately have "fst e = (s # p) ! k" by simp
    with k have "e = (zip (s # p) p) ! k" by (simp add: prod_eq_iff)
    moreover from k(1) have "k < length (zip (s # p) p)" by simp
    ultimately have "e \<in> set (zip (s # p) p)" by (metis nth_mem)
    then show ?thesis by (simp add: edges_of_item)
  qed
qed

lemma group_invD:
  assumes "group_inv g layers i P0 (P, pc)"
  shows "distinct (leaves pc)" "P = P0 \<union> set (leaves pc)" "P0 \<inter> set (leaves pc) = {}"
    "P \<subseteq> set (nodes g)" "closed_upto g layers i P"
    "\<forall>c \<in> set pc. nonempty_children c \<and> item_ok g P0 c"
  using assms unfolding group_inv_def fst_conv snd_conv by blast+

lemma closed_upto_chain:
  assumes "closed_upto g layers i P" "fresh_run g layers i P s p" "layer_of layers s \<le> i"
  shows "closed_upto g layers i (P \<union> set (s # p))"
  unfolding closed_upto_def
proof
  fix v assume "v \<in> P \<union> set (s # p)"
  then consider "v \<in> P" | "v = s" | "v \<in> set p" by auto
  then show "layer_of layers v \<le> i \<or> (\<exists>u \<in> P \<union> set (s # p). predecessors g v = [u])"
  proof cases
    case 1
    with assms(1) show ?thesis unfolding closed_upto_def by blast
  next
    case 2
    with assms(3) show ?thesis by simp
  next
    case 3
    then obtain k where k: "k < length p" "v = p ! k" by (auto simp: in_set_conv_nth)
    with assms(2) have "predecessors g v = [(s # p) ! k]" by (simp add: fresh_run_def)
    moreover from k(1) have "(s # p) ! k \<in> set (s # p)" by (intro nth_mem) simp
    ultimately show ?thesis by blast
  qed
qed

lemma group_inv_add:
  assumes inv: "group_inv g layers i P0 (P, pc)"
    and s: "s \<in> set (nodes g)" "layer_of layers s = i" "s \<notin> P" "set (predecessors g s) \<subseteq> P0"
    and ch: "fresh_run g layers i P s p"
  shows "group_inv g layers i P0 (P \<union> set (s # p), pc @ [item s p])"
proof -
  from inv have d: "distinct (leaves pc)" and P: "P = P0 \<union> set (leaves pc)"
    and dj: "P0 \<inter> set (leaves pc) = {}" and PV: "P \<subseteq> set (nodes g)"
    and cl: "closed_upto g layers i P"
    and ok: "\<forall>c \<in> set pc. nonempty_children c \<and> item_ok g P0 c"
    unfolding group_inv_def fst_conv snd_conv by blast+
  from ch have ds: "distinct (s # p)" and pV: "set p \<subseteq> set (nodes g)" and pP: "set p \<inter> P = {}"
    by (simp_all add: fresh_run_def)
  have 1: "distinct (leaves (pc @ [item s p]))"
    using d ds pP s(3) P by (auto simp: extract_nodes_item)
  have 2: "P \<union> set (s # p) = P0 \<union> set (leaves (pc @ [item s p]))"
    using P by (auto simp: extract_nodes_item)
  have 3: "P0 \<inter> set (leaves (pc @ [item s p])) = {}"
    using dj pP s(3) P by (auto simp: extract_nodes_item)
  have 4: "P \<union> set (s # p) \<subseteq> set (nodes g)" using PV pV s(1) by auto
  have 5: "closed_upto g layers i (P \<union> set (s # p))"
    using closed_upto_chain[OF cl ch] s(2) by simp
  have 6: "\<forall>c \<in> set (pc @ [item s p]). nonempty_children c \<and> item_ok g P0 c"
    using ok nonempty_children_item item_ok_item[OF ch s(4)] by auto
  from 1 2 3 4 5 6 show ?thesis unfolding group_inv_def fst_conv snd_conv by blast
qed

lemma item_Nil: "item s [] = Node s"
  by (simp add: item_def)

lemma group_inv_add_nodes:
  "group_inv g layers i P0 (P, pc) \<Longrightarrow> distinct ns \<Longrightarrow> set ns \<inter> P = {} \<Longrightarrow>
   \<forall>n \<in> set ns. n \<in> set (nodes g) \<and> layer_of layers n = i \<and> set (predecessors g n) \<subseteq> P0 \<Longrightarrow>
   group_inv g layers i P0 (P \<union> set ns, pc @ map Node ns)"
proof (induction ns arbitrary: P pc)
  case Nil
  then show ?case by simp
next
  case (Cons n ns)
  from Cons.prems have n: "n \<in> set (nodes g)" "layer_of layers n = i" "n \<notin> P"
    "set (predecessors g n) \<subseteq> P0" by auto
  from group_inv_add[OF Cons.prems(1) n fresh_run_Nil]
  have 1: "group_inv g layers i P0 (P \<union> {n}, pc @ [Node n])" by (simp add: item_Nil)
  from Cons.prems have "distinct ns" "set ns \<inter> (P \<union> {n}) = {}"
    "\<forall>n \<in> set ns. n \<in> set (nodes g) \<and> layer_of layers n = i \<and> set (predecessors g n) \<subseteq> P0"
    by auto
  from Cons.IH[OF 1 this] show ?case by (simp add: Un_commute insert_commute Un_assoc)
qed

section \<open>The loops over groups and layers keep their invariants\<close>

lemma process_groups_inv:
  assumes wf: "wf_digraph g" and lay: "layering g {} layers"
  shows "group_inv g layers i P0 (P, pc) \<Longrightarrow> distinct (concat (map snd groups)) \<Longrightarrow>
    set (concat (map snd groups)) \<inter> P = {} \<Longrightarrow>
    \<forall>n \<in> set (concat (map snd groups)).
       n \<in> set (nodes g) \<and> layer_of layers n = i \<and> set (predecessors g n) \<subseteq> P0 \<Longrightarrow>
    \<exists>st'. process_groups g groups (P, pc) = Some st' \<and> group_inv g layers i P0 st' \<and>
          P \<union> set (concat (map snd groups)) \<subseteq> fst st'"
proof (induction groups arbitrary: P pc)
  case Nil
  then show ?case by simp
next
  case (Cons grp groups)
  obtain key ns where grp: "grp = (key, ns)" by (cases grp)
  let ?rest = "concat (map snd groups)"
  from Cons.prems(2) grp have dns: "distinct ns" and drest: "distinct ?rest"
    and dj: "set ns \<inter> set ?rest = {}" by auto
  from Cons.prems(3) grp have nsP: "set ns \<inter> P = {}" and restP: "set ?rest \<inter> P = {}" by auto
  from Cons.prems(4) grp have
    nsn: "\<forall>n \<in> set ns. n \<in> set (nodes g) \<and> layer_of layers n = i \<and> set (predecessors g n) \<subseteq> P0"
    and restn: "\<forall>n \<in> set ?rest. n \<in> set (nodes g) \<and> layer_of layers n = i \<and>
        set (predecessors g n) \<subseteq> P0" by auto
  show ?case
  proof (cases "length ns = 1")
    case True
    define s where "s = ns ! 0"
    from True have ns: "ns = [s]" unfolding s_def by (simp add: length_one_conv[symmetric])
    from nsn nsP ns have s: "s \<in> set (nodes g)" "layer_of layers s = i" "s \<notin> P"
      "set (predecessors g s) \<subseteq> P0" by auto
    from sequence_or_node_run[OF wf lay, of s P pc] obtain p where
      r: "run g s p"
      and q: "sequence_or_node g s (P, pc) = Some (P \<union> set (s # p), pc @ [item s p])" by blast
    from group_invD(5)[OF Cons.prems(1)] have cl: "closed_upto g layers i P" .
    from run_chain[OF wf lay cl r s(3,2)] have ch: "fresh_run g layers i P s p" .
    from group_inv_add[OF Cons.prems(1) s ch]
    have inv1: "group_inv g layers i P0 (P \<union> set (s # p), pc @ [item s p])" .
    have "set ?rest \<inter> (P \<union> set (s # p)) = {}"
    proof -
      have "\<And>v. v \<in> set ?rest \<Longrightarrow> v \<notin> set p"
        using restn ch unfolding fresh_run_def by fastforce
      with restP dj ns show ?thesis by auto
    qed
    from Cons.IH[OF inv1 drest this restn] obtain st' where
      st': "process_groups g groups (P \<union> set (s # p), pc @ [item s p]) = Some st'"
        "group_inv g layers i P0 st'" "P \<union> set (s # p) \<union> set ?rest \<subseteq> fst st'" by blast
    have "process_groups g (grp # groups) (P, pc) = Some st'"
      using grp True q st'(1) by (simp add: s_def)
    with st' grp ns show ?thesis by auto
  next
    case False
    from group_inv_add_nodes[OF Cons.prems(1) dns nsP nsn]
    have inv1: "group_inv g layers i P0 (P \<union> set ns, pc @ map Node ns)" .
    have "set ?rest \<inter> (P \<union> set ns) = {}" using restP dj by auto
    from Cons.IH[OF inv1 drest this restn] obtain st' where
      st': "process_groups g groups (P \<union> set ns, pc @ map Node ns) = Some st'"
        "group_inv g layers i P0 st'" "P \<union> set ns \<union> set ?rest \<subseteq> fst st'" by blast
    have "process_groups g (grp # groups) (P, pc) = Some st'"
      using grp False st'(1) by simp
    with st' grp show ?thesis by auto
  qed
qed

lemma concat_update_absent:
  "k \<notin> fst ` set al \<Longrightarrow> concat (map snd (AList.update k [] al)) = concat (map snd al)"
  by (induction al) auto

lemma mset_concat_map_entry:
  "k \<in> fst ` set al \<Longrightarrow>
   mset (concat (map snd (AList.map_entry k (\<lambda>ns. ns @ [n]) al))) =
   mset (concat (map snd al)) + {#n#}"
  by (induction al) auto

lemma mset_group_by_successors:
  "mset (concat (map snd (group_by_successors g cur acc))) = mset (concat (map snd acc)) + mset cur"
proof (induction cur arbitrary: acc)
  case Nil
  then show ?case by simp
next
  case (Cons node cur)
  define key where "key = sort (successors g node)"
  define acc1 where "acc1 = (if map_of acc key = None then AList.update key [] acc else acc)"
  have k: "key \<in> fst ` set acc1"
    unfolding acc1_def by (auto simp: AList.dom_update map_of_eq_None_iff)
  have c: "concat (map snd acc1) = concat (map snd acc)"
    unfolding acc1_def by (simp add: concat_update_absent map_of_eq_None_iff)
  have "group_by_successors g (node # cur) acc =
        group_by_successors g cur (AList.map_entry key (\<lambda>ns. ns @ [node]) acc1)"
    by (simp add: key_def acc1_def Let_def)
  then show ?case using Cons.IH mset_concat_map_entry[OF k] c by simp
qed

lemma group_by_successors_nodes:
  "distinct cur \<Longrightarrow>
   distinct (concat (map snd (group_by_successors g cur []))) \<and>
   set (concat (map snd (group_by_successors g cur []))) = set cur"
  using mset_group_by_successors[of g cur "[]"]
  by (metis add_0 concat.simps(1) list.simps(8) mset.simps(1) mset_eq_setD mset_eq_imp_distinct_iff)

lemma layers_invD:
  assumes "layers_inv g layers i (P, xs)"
  shows "distinct (leaves xs)" "P = set (leaves xs)" "P \<subseteq> set (nodes g)"
    "closed_upto g layers i P" "set (concat (take i layers)) \<subseteq> P"
    "\<forall>k < length xs. nonempty_children (xs ! k) \<and> item_ok g (set (leaves (take k xs))) (xs ! k)"
  using assms unfolding layers_inv_def fst_conv snd_conv by blast+

lemma layer_of_mem:
  "v \<in> set (concat layers) \<Longrightarrow> v \<in> set (layers ! layer_of layers v)"
  by (induction layers) (auto simp: layer_of_Cons)

lemma layer_of_take:
  assumes "v \<in> set (concat layers)" "layer_of layers v < i"
  shows "v \<in> set (concat (take i layers))"
proof -
  let ?j = "layer_of layers v"
  from layer_of_less[OF assms(1)] assms(2) have "?j < length (take i layers)" by simp
  moreover from this have "take i layers ! ?j = layers ! ?j" by simp
  ultimately have "layers ! ?j \<in> set (take i layers)" by (metis nth_mem)
  with layer_of_mem[OF assms(1)] show ?thesis by auto
qed

lemma layer_preds:
  assumes wf: "wf_digraph g" and lay: "layering g {} layers"
    and "set (concat (take i layers)) \<subseteq> P" "layer_of layers s = i"
  shows "set (predecessors g s) \<subseteq> P"
proof
  fix u assume "u \<in> set (predecessors g s)"
  then have e: "(u, s) \<in> set (edges g)" by (simp add: set_predecessors)
  from layering_edge(1)[OF wf lay e] assms(4) have l: "layer_of layers u < i" by simp
  from wf e have "u \<in> set (nodes g)" by (force simp: wf_digraph_def)
  with lay have "u \<in> set (concat layers)" by (simp add: layering_def)
  from layer_of_take[OF this l] assms(3) show "u \<in> P" by auto
qed

lemma layers_inv_append:
  assumes inv: "layers_inv g layers i (P, xs)"
    and grp: "group_inv g layers i P (P', pc)"
    and t: "extract_nodes t = leaves pc" "nonempty_children t" "item_ok g P t"
    and sub: "set (layers ! i) \<subseteq> P'" "i < length layers"
  shows "layers_inv g layers (Suc i) (P', xs @ [t])"
proof -
  note I = layers_invD[OF inv] and G = group_invD[OF grp]
  have 1: "distinct (leaves (xs @ [t]))" using I(1,2) G(1,3) t(1) by auto
  have 2: "P' = set (leaves (xs @ [t]))" using I(2) G(2) t(1) by auto
  have 3: "closed_upto g layers (Suc i) P'" using closed_upto_mono[OF G(5)] by simp
  have "take (Suc i) layers = take i layers @ [layers ! i]"
    using sub(2) by (simp add: take_Suc_conv_app_nth)
  with I(5) G(2) sub(1) have 4: "set (concat (take (Suc i) layers)) \<subseteq> P'" by auto
  have 5: "\<forall>k < length (xs @ [t]). nonempty_children ((xs @ [t]) ! k) \<and>
      item_ok g (set (leaves (take k (xs @ [t])))) ((xs @ [t]) ! k)"
  proof (intro allI impI)
    fix k assume "k < length (xs @ [t])"
    then consider "k < length xs" | "k = length xs" by fastforce
    then show "nonempty_children ((xs @ [t]) ! k) \<and>
      item_ok g (set (leaves (take k (xs @ [t])))) ((xs @ [t]) ! k)"
    proof cases
      case 1
      with I(6) show ?thesis by (simp add: nth_append)
    next
      case 2
      with t I(2) show ?thesis by simp
    qed
  qed
  from 1 2 3 4 5 G(4) show ?thesis unfolding layers_inv_def fst_conv snd_conv by blast
qed

lemma group_inv_start:
  assumes "layers_inv g layers i (P, xs)"
  shows "group_inv g layers i P (P, [])"
  using layers_invD[OF assms] unfolding group_inv_def by simp

lemma edges_of_Parallel:
  assumes "\<forall>c \<in> set pc. nonempty_children c"
  shows "edges_of (Parallel pc) = concat (map edges_of pc)"
proof -
  from assms have "\<forall>c \<in> set pc. returns_exits c" by (simp add: nonempty_children_returns)
  from parallel_loop_returns[OF this, of "[]" "[]"] show ?thesis by (simp add: edges_of_def)
qed

lemma item_ok_Parallel:
  assumes "\<forall>c \<in> set pc. nonempty_children c \<and> item_ok g P c"
  shows "item_ok g P (Parallel pc)"
proof -
  from assms have e: "edges_of (Parallel pc) = concat (map edges_of pc)"
    by (simp add: edges_of_Parallel)
  show ?thesis unfolding item_ok_def e using assms by (fastforce simp: item_ok_def)
qed

lemma process_layers_inv:
  assumes wf: "wf_digraph g" and lay: "layering g {} layers"
  shows "rest = drop i layers \<Longrightarrow> i \<le> length layers \<Longrightarrow> layers_inv g layers i (P, xs) \<Longrightarrow>
    \<exists>st'. process_layers g n i rest (P, xs) = Some st' \<and>
          layers_inv g layers (length layers) st'"
proof (induction rest arbitrary: i P xs)
  case Nil
  then have "i = length layers" by simp
  with Nil show ?case by simp
next
  case (Cons layer rest)
  from Cons.prems(1) have i: "i < length layers"
    by (metis drop_all leI list.distinct(1))
  from Cons.prems(1) i have layer: "layer = layers ! i" and rest: "rest = drop (Suc i) layers"
    by (metis Cons_nth_drop_Suc list.inject)+
  note I = layers_invD[OF Cons.prems(3)]
  from lay have dl: "distinct (concat layers)" and sl: "set (concat layers) = set (nodes g)"
    by (simp_all add: layering_def)
  from i layer have lin: "layer \<in> set layers" by simp
  with dl have dlayer: "distinct layer" by (auto simp: distinct_concat_iff)
  define cur where "cur = filter (\<lambda>node. node \<notin> P) layer"
  have dcur: "distinct cur" using dlayer by (simp add: cur_def)
  have curP: "set cur \<inter> P = {}" by (auto simp: cur_def)
  have layerP: "set layer \<subseteq> P \<union> set cur" by (auto simp: cur_def)
  have curn: "\<forall>s \<in> set cur. s \<in> set (nodes g) \<and> layer_of layers s = i \<and>
      set (predecessors g s) \<subseteq> P"
  proof
    fix s assume "s \<in> set cur"
    then have s: "s \<in> set (layers ! i)" by (simp add: cur_def layer)
    with lin layer sl have "s \<in> set (nodes g)" by auto
    moreover from layer_of_nth[OF dl i s] have l: "layer_of layers s = i" .
    moreover from layer_preds[OF wf lay I(5) l] have "set (predecessors g s) \<subseteq> P" .
    ultimately show "s \<in> set (nodes g) \<and> layer_of layers s = i \<and> set (predecessors g s) \<subseteq> P"
      by simp
  qed
  have take: "take (Suc i) layers = take i layers @ [layer]"
    using i layer by (simp add: take_Suc_conv_app_nth)
  note G0 = group_inv_start[OF Cons.prems(3)]
  consider (empty) "cur = []"
    | (one) "cur \<noteq> []" "length cur = 1 \<and> i < n - 1"
    | (many) "cur \<noteq> []" "\<not> (length cur = 1 \<and> i < n - 1)" by blast
  then show ?case
  proof cases
    case empty
    with layerP I(5) take have "set (concat (take (Suc i) layers)) \<subseteq> P" by auto
    with I closed_upto_mono[OF I(4), of "Suc i"] have "layers_inv g layers (Suc i) (P, xs)"
      unfolding layers_inv_def fst_conv snd_conv by simp
    from Cons.IH[OF rest _ this] i obtain st' where
      "process_layers g n (Suc i) rest (P, xs) = Some st'"
      "layers_inv g layers (length layers) st'" by auto
    with empty show ?thesis by (simp add: cur_def)
  next
    case one
    define s where "s = cur ! 0"
    from one have cur: "cur = [s]" unfolding s_def by (simp add: length_one_conv[symmetric])
    with curn curP have s: "s \<in> set (nodes g)" "layer_of layers s = i" "s \<notin> P"
      "set (predecessors g s) \<subseteq> P" by auto
    from sequence_or_node_run[OF wf lay, of s P xs] obtain p where
      r: "run g s p"
      and q: "sequence_or_node g s (P, xs) = Some (P \<union> set (s # p), xs @ [item s p])" by blast
    from run_chain[OF wf lay I(4) r s(3,2)] have ch: "fresh_run g layers i P s p" .
    from group_inv_add[OF G0 s ch]
    have G: "group_inv g layers i P (P \<union> set (s # p), [item s p])" by simp
    have "set (layers ! i) \<subseteq> P \<union> set (s # p)" using layerP cur layer by auto
    from layers_inv_append[OF Cons.prems(3) G _ _ _ this i, of "item s p"] group_invD(6)[OF G]
    have "layers_inv g layers (Suc i) (P \<union> set (s # p), xs @ [item s p])" by simp
    from Cons.IH[OF rest _ this] i obtain st' where
      "process_layers g n (Suc i) rest (P \<union> set (s # p), xs @ [item s p]) = Some st'"
      "layers_inv g layers (length layers) st'" by auto
    with one q show ?thesis by (simp add: cur_def[symmetric] s_def[symmetric])
  next
    case many
    define groups where "groups = group_by_successors g cur []"
    from group_by_successors_nodes[OF dcur, of g]
    have dg: "distinct (concat (map snd groups))" and sg: "set (concat (map snd groups)) = set cur"
      by (simp_all add: groups_def)
    from process_groups_inv[OF wf lay G0 dg] sg curP curn obtain P' pc where
      pg: "process_groups g groups (P, []) = Some (P', pc)"
      and G: "group_inv g layers i P (P', pc)" and sub: "P \<union> set cur \<subseteq> P'"
      by (metis prod.collapse)
    from sub layerP layer have lsub: "set (layers ! i) \<subseteq> P'" by auto
    note GD = group_invD[OF G]
    define xs' where "xs' = (if length pc > 1 then xs @ [Parallel pc]
                    else if length pc = 1 then xs @ [pc ! 0] else xs)"
    have "layers_inv g layers (Suc i) (P', xs')"
    proof (cases "length pc > 1")
      case True
      then have "pc \<noteq> []" by auto
      with GD(6) have "nonempty_children (Parallel pc)" by simp
      moreover from item_ok_Parallel[OF GD(6)] have "item_ok g P (Parallel pc)" .
      ultimately show ?thesis
        using layers_inv_append[OF Cons.prems(3) G _ _ _ lsub i, of "Parallel pc"] True
        by (simp add: xs'_def)
    next
      case False
      show ?thesis
      proof (cases "length pc = 1")
        case True
        then have pc: "pc = [pc ! 0]" by (simp add: length_one_conv[symmetric])
        then have "extract_nodes (pc ! 0) = leaves pc"
          by (metis append_Nil2 concat.simps(1) concat.simps(2) list.simps(8) list.simps(9))
        moreover from GD(6) pc have "nonempty_children (pc ! 0)" "item_ok g P (pc ! 0)"
          by (metis list.set_intros(1))+
        ultimately show ?thesis
          using layers_inv_append[OF Cons.prems(3) G _ _ _ lsub i, of "pc ! 0"] True False
          by (simp add: xs'_def)
      next
        case F2: False
        with False have "pc = []" by (cases pc) auto
        with GD(2) have "P' = P" by simp
        with sub curP many(1) have False by (cases cur) auto
        then show ?thesis ..
      qed
    qed
    from Cons.IH[OF rest _ this] i obtain st' where
      st': "process_layers g n (Suc i) rest (P', xs') = Some st'"
      "layers_inv g layers (length layers) st'" by auto
    from many(2) have nb: "(length cur = Suc 0 \<and> i < n - Suc 0) = False" by simp
    have "process_layers g n i (layer # rest) (P, xs) = process_layers g n (Suc i) rest (P', xs')"
      using many(1) pg
      by (simp add: cur_def[symmetric] groups_def[symmetric] xs'_def nb)
    with st' show ?thesis by simp
  qed
qed

section \<open>Paths in a flattened tree\<close>

lemma edges_of_Sequence:
  assumes "\<forall>c \<in> set cs. nonempty_children c"
  shows "set (edges_of (Sequence cs)) =
     (\<Union>c \<in> set cs. set (edges_of c)) \<union>
     (\<Union>i \<in> {..<length cs - 1}. set (exits_of (cs ! i)) \<times> set (extract_entry_nodes (cs ! (i + 1))))"
proof -
  from assms have all: "\<forall>c \<in> set cs. returns_exits c" by (simp add: nonempty_children_returns)
  then have ex: "\<forall>c \<in> set cs. exits_of c \<noteq> []" by (simp add: returns_exits_def)
  from sequence_loop_returns[OF all, of "[]" None]
  have "edges_of (Sequence cs) = sequence_edges None cs" by (simp add: edges_of_def)
  with set_sequence_edges[OF ex, of None] show ?thesis by (simp add: truthy_def)
qed

lemma exits_of_Sequence:
  assumes "\<forall>c \<in> set cs. nonempty_children c" "cs \<noteq> []"
  shows "exits_of (Sequence cs) = exits_of (last cs)"
proof -
  from assms have all: "\<forall>c \<in> set cs. returns_exits c" by (simp add: nonempty_children_returns)
  from sequence_loop_returns[OF all, of "[]" None] assms(2) show ?thesis
    by (simp add: exits_of_def)
qed

lemma exits_of_Parallel:
  assumes "\<forall>c \<in> set cs. nonempty_children c"
  shows "exits_of (Parallel cs) = concat (map exits_of cs)"
proof -
  from assms have "\<forall>c \<in> set cs. returns_exits c" by (simp add: nonempty_children_returns)
  from parallel_loop_returns[OF this, of "[]" "[]"] show ?thesis by (simp add: exits_of_def)
qed

lemma exits_nonempty: "nonempty_children t \<Longrightarrow> exits_of t \<noteq> []"
  using nonempty_children_returns by (simp add: returns_exits_def)

lemma entries_nonempty: "nonempty_children t \<Longrightarrow> extract_entry_nodes t \<noteq> []"
proof (induction t)
  case (Node n)
  show ?case by simp
next
  case (Sequence cs)
  then show ?case by (cases cs) auto
next
  case (Parallel cs)
  then show ?case by (cases cs) auto
qed

lemma entries_leaves: "set (extract_entry_nodes t) \<subseteq> set (extract_nodes t)"
proof (induction t)
  case (Node n)
  show ?case by simp
next
  case (Sequence cs)
  then show ?case by (cases cs) auto
next
  case (Parallel cs)
  then show ?case by auto
qed

lemma exits_leaves: "nonempty_children t \<Longrightarrow> set (exits_of t) \<subseteq> set (extract_nodes t)"
proof (induction t)
  case (Node n)
  show ?case by (simp add: exits_of_Node)
next
  case (Sequence cs)
  then have ne: "cs \<noteq> []" and all: "\<forall>c \<in> set cs. nonempty_children c" by auto
  from ne have "last cs \<in> set cs" by simp
  with Sequence all have "set (exits_of (last cs)) \<subseteq> set (extract_nodes (last cs))" by blast
  with \<open>last cs \<in> set cs\<close> show ?case
    unfolding exits_of_Sequence[OF all ne] by auto
next
  case (Parallel cs)
  then have all: "\<forall>c \<in> set cs. nonempty_children c" by auto
  with Parallel show ?case unfolding exits_of_Parallel[OF all] by fastforce
qed

lemma Sequence_child_edges:
  assumes "\<forall>c \<in> set cs. nonempty_children c" "c \<in> set cs"
  shows "set (edges_of c) \<subseteq> set (edges_of (Sequence cs))"
  unfolding edges_of_Sequence[OF assms(1)] using assms(2) by auto

lemma Sequence_join_edges:
  assumes "\<forall>c \<in> set cs. nonempty_children c" "Suc i < length cs"
    "x \<in> set (exits_of (cs ! i))" "n \<in> set (extract_entry_nodes (cs ! Suc i))"
  shows "(x, n) \<in> set (edges_of (Sequence cs))"
proof -
  from assms(2) have "i \<in> {..<length cs - 1}" by auto
  with assms(3,4) show ?thesis unfolding edges_of_Sequence[OF assms(1)] by force
qed

lemma rtrancl_sub: "(a, b) \<in> r\<^sup>* \<Longrightarrow> r \<subseteq> s \<Longrightarrow> (a, b) \<in> s\<^sup>*"
  using rtrancl_mono by blast

lemma Sequence_to_exit:
  assumes all: "\<forall>c \<in> set cs. nonempty_children c"
    and A: "\<And>c v. c \<in> set cs \<Longrightarrow> v \<in> set (extract_nodes c) \<Longrightarrow>
              \<exists>x \<in> set (exits_of c). (v, x) \<in> (set (edges_of c))\<^sup>*"
  shows "k < length cs \<Longrightarrow> v \<in> set (extract_nodes (cs ! k)) \<Longrightarrow>
     \<exists>x \<in> set (exits_of (last cs)). (v, x) \<in> (set (edges_of (Sequence cs)))\<^sup>*"
proof (induction "length cs - k" arbitrary: k v)
  case 0
  then show ?case by simp
next
  case (Suc d)
  let ?F = "set (edges_of (Sequence cs))"
  from Suc.prems have ck: "cs ! k \<in> set cs" by simp
  from A[OF ck Suc.prems(2)] obtain x where
    x: "x \<in> set (exits_of (cs ! k))" "(v, x) \<in> (set (edges_of (cs ! k)))\<^sup>*" by blast
  from rtrancl_sub[OF x(2) Sequence_child_edges[OF all ck]] have vx: "(v, x) \<in> ?F\<^sup>*" .
  show ?case
  proof (cases "Suc k < length cs")
    case False
    with Suc.prems(1) have "cs ! k = last cs"
      by (metis Suc_lessI diff_Suc_1 last_conv_nth less_nat_zero_code list.size(3))
    with x(1) vx show ?thesis by auto
  next
    case True
    then have c1: "cs ! Suc k \<in> set cs" by simp
    with all have "nonempty_children (cs ! Suc k)" by simp
    from entries_nonempty[OF this] obtain n where n: "n \<in> set (extract_entry_nodes (cs ! Suc k))"
      by (cases "extract_entry_nodes (cs ! Suc k)") auto
    from Sequence_join_edges[OF all True x(1) n] have xn: "(x, n) \<in> ?F" .
    from n entries_leaves have nl: "n \<in> set (extract_nodes (cs ! Suc k))" by auto
    from Suc.hyps(2) have "d = length cs - Suc k" by simp
    from Suc.hyps(1)[OF this True nl] obtain y where
      "y \<in> set (exits_of (last cs))" "(n, y) \<in> ?F\<^sup>*" by blast
    with vx xn show ?thesis by (meson rtrancl.rtrancl_into_rtrancl rtrancl_trans)
  qed
qed

lemma Sequence_from_entry:
  assumes all: "\<forall>c \<in> set cs. nonempty_children c"
    and A: "\<And>c v. c \<in> set cs \<Longrightarrow> v \<in> set (extract_nodes c) \<Longrightarrow>
              \<exists>x \<in> set (exits_of c). (v, x) \<in> (set (edges_of c))\<^sup>*"
    and B: "\<And>c v. c \<in> set cs \<Longrightarrow> v \<in> set (extract_nodes c) \<Longrightarrow>
              \<exists>n \<in> set (extract_entry_nodes c). (n, v) \<in> (set (edges_of c))\<^sup>*"
  shows "k < length cs \<Longrightarrow> v \<in> set (extract_nodes (cs ! k)) \<Longrightarrow>
     \<exists>n \<in> set (extract_entry_nodes (hd cs)). (n, v) \<in> (set (edges_of (Sequence cs)))\<^sup>*"
proof (induction k arbitrary: v)
  case 0
  then have c0: "cs ! 0 \<in> set cs" by simp
  from B[OF c0 "0.prems"(2)] obtain n where
    n: "n \<in> set (extract_entry_nodes (cs ! 0))" "(n, v) \<in> (set (edges_of (cs ! 0)))\<^sup>*" by blast
  from rtrancl_sub[OF n(2) Sequence_child_edges[OF all c0]] n(1) "0.prems"(1) show ?case
    by (auto simp: hd_conv_nth)
next
  case (Suc k)
  let ?F = "set (edges_of (Sequence cs))"
  from Suc.prems have c1: "cs ! Suc k \<in> set cs" and k: "k < length cs" by simp_all
  then have c0: "cs ! k \<in> set cs" by simp
  from B[OF c1 Suc.prems(2)] obtain n where
    n: "n \<in> set (extract_entry_nodes (cs ! Suc k))"
       "(n, v) \<in> (set (edges_of (cs ! Suc k)))\<^sup>*" by blast
  from rtrancl_sub[OF n(2) Sequence_child_edges[OF all c1]] have nv: "(n, v) \<in> ?F\<^sup>*" .
  from all c0 have ne: "nonempty_children (cs ! k)" by simp
  from exits_nonempty[OF ne] obtain x where x: "x \<in> set (exits_of (cs ! k))"
    by (cases "exits_of (cs ! k)") auto
  from Sequence_join_edges[OF all Suc.prems(1) x n(1)] have xn: "(x, n) \<in> ?F" .
  from x exits_leaves[OF ne] have "x \<in> set (extract_nodes (cs ! k))" by auto
  from Suc.IH[OF k this] obtain m where
    "m \<in> set (extract_entry_nodes (hd cs))" "(m, x) \<in> ?F\<^sup>*" by blast
  with xn nv show ?case by (meson rtrancl.rtrancl_into_rtrancl rtrancl_trans)
qed

lemma leaf_to_exit_from_entry:
  "nonempty_children t \<Longrightarrow> v \<in> set (extract_nodes t) \<Longrightarrow>
   (\<exists>x \<in> set (exits_of t). (v, x) \<in> (set (edges_of t))\<^sup>*) \<and>
   (\<exists>n \<in> set (extract_entry_nodes t). (n, v) \<in> (set (edges_of t))\<^sup>*)"
proof (induction t arbitrary: v)
  case (Node n)
  then show ?case by (simp add: exits_of_Node)
next
  case (Sequence cs)
  then have ne: "cs \<noteq> []" and all: "\<forall>c \<in> set cs. nonempty_children c" by auto
  from Sequence.prems(2) obtain c where "c \<in> set cs" "v \<in> set (extract_nodes c)" by auto
  then obtain k where k: "k < length cs" "v \<in> set (extract_nodes (cs ! k))"
    by (metis in_set_conv_nth)
  have A: "\<And>c v. c \<in> set cs \<Longrightarrow> v \<in> set (extract_nodes c) \<Longrightarrow>
              \<exists>x \<in> set (exits_of c). (v, x) \<in> (set (edges_of c))\<^sup>*"
    and B: "\<And>c v. c \<in> set cs \<Longrightarrow> v \<in> set (extract_nodes c) \<Longrightarrow>
              \<exists>n \<in> set (extract_entry_nodes c). (n, v) \<in> (set (edges_of c))\<^sup>*"
    using Sequence.IH all by blast+
  have en: "extract_entry_nodes (Sequence cs) = extract_entry_nodes (hd cs)"
    using ne by (cases cs) simp_all
  from Sequence_to_exit[OF all A k] Sequence_from_entry[OF all A B k] show ?case
    unfolding exits_of_Sequence[OF all ne] en by blast
next
  case (Parallel cs)
  then have all: "\<forall>c \<in> set cs. nonempty_children c" by auto
  from Parallel.prems(2) obtain c where c: "c \<in> set cs" "v \<in> set (extract_nodes c)" by auto
  from Parallel.IH[OF c(1) _ c(2)] all c(1) obtain x n where
    x: "x \<in> set (exits_of c)" "(v, x) \<in> (set (edges_of c))\<^sup>*"
    and n: "n \<in> set (extract_entry_nodes c)" "(n, v) \<in> (set (edges_of c))\<^sup>*" by blast
  have sub: "set (edges_of c) \<subseteq> set (edges_of (Parallel cs))"
    using c(1) by (auto simp: edges_of_Parallel[OF all])
  from rtrancl_sub[OF x(2) sub] rtrancl_sub[OF n(2) sub] x(1) n(1) c(1) show ?case
    by (auto simp: exits_of_Parallel[OF all])
qed

lemma Sequence_ordered:
  assumes all: "\<forall>c \<in> set cs. nonempty_children c"
  shows "k < l \<Longrightarrow> l < length cs \<Longrightarrow> u \<in> set (extract_nodes (cs ! k)) \<Longrightarrow>
     v \<in> set (extract_nodes (cs ! l)) \<Longrightarrow> (u, v) \<in> (set (edges_of (Sequence cs)))\<^sup>+"
proof (induction "l - k" arbitrary: k u)
  case 0
  then show ?case by simp
next
  case (Suc d)
  let ?F = "set (edges_of (Sequence cs))"
  from Suc.prems have ck: "cs ! k \<in> set cs" and cl: "cs ! l \<in> set cs" by simp_all
  from all ck cl have nk: "nonempty_children (cs ! k)" and nl: "nonempty_children (cs ! l)"
    by simp_all
  from leaf_to_exit_from_entry[OF nk Suc.prems(3)] obtain x where
    x: "x \<in> set (exits_of (cs ! k))" "(u, x) \<in> (set (edges_of (cs ! k)))\<^sup>*" by blast
  from rtrancl_sub[OF x(2) Sequence_child_edges[OF all ck]] have ux: "(u, x) \<in> ?F\<^sup>*" .
  from Suc.prems have k1: "Suc k < length cs" by simp
  show ?case
  proof (cases "Suc k = l")
    case True
    from leaf_to_exit_from_entry[OF nl Suc.prems(4)] obtain n where
      n: "n \<in> set (extract_entry_nodes (cs ! l))" "(n, v) \<in> (set (edges_of (cs ! l)))\<^sup>*" by blast
    from rtrancl_sub[OF n(2) Sequence_child_edges[OF all cl]] have nv: "(n, v) \<in> ?F\<^sup>*" .
    from Sequence_join_edges[OF all k1 x(1)] n(1) True have "(x, n) \<in> ?F" by simp
    with ux nv show ?thesis by (meson rtrancl_into_trancl1 trancl_rtrancl_trancl)
  next
    case False
    with Suc.prems(1) have lt: "Suc k < l" by simp
    from all k1 have "nonempty_children (cs ! Suc k)" by simp
    from entries_nonempty[OF this] obtain n where n: "n \<in> set (extract_entry_nodes (cs ! Suc k))"
      by (cases "extract_entry_nodes (cs ! Suc k)") auto
    from Sequence_join_edges[OF all k1 x(1) n] have xn: "(x, n) \<in> ?F" .
    from n entries_leaves have nl': "n \<in> set (extract_nodes (cs ! Suc k))" by auto
    from Suc.hyps(2) have "d = l - Suc k" by simp
    from Suc.hyps(1)[OF this lt Suc.prems(2) nl' Suc.prems(4)] have "(n, v) \<in> ?F\<^sup>+" .
    with ux xn show ?thesis by (meson rtrancl_into_trancl1 trancl_trans)
  qed
qed

section \<open>The structure of one component\<close>

lemma structure_edges:
  assumes wf: "wf_digraph g"
    and seq: "\<forall>k < length xs. nonempty_children (xs ! k) \<and>
        item_ok g (set (leaves (take k xs))) (xs ! k)"
    and lv: "set (leaves xs) = set (nodes g)"
  shows "set (edges g) \<subseteq> (set (edges_of (if length xs = 1 then xs ! 0 else Sequence xs)))\<^sup>+"
proof
  fix e assume e: "e \<in> set (edges g)"
  obtain u v where uv: "e = (u, v)" by (cases e)
  from wf e uv have "v \<in> set (nodes g)" by (force simp: wf_digraph_def)
  with lv obtain c where "c \<in> set xs" "v \<in> set (extract_nodes c)" by auto
  then obtain k where k: "k < length xs" "v \<in> set (extract_nodes (xs ! k))"
    by (metis in_set_conv_nth)
  with seq e uv have ok: "e \<in> set (edges_of (xs ! k)) \<or> u \<in> set (leaves (take k xs))"
    unfolding item_ok_def by fastforce
  from seq have all: "\<forall>c \<in> set xs. nonempty_children c" by (auto simp: in_set_conv_nth)
  show "e \<in> (set (edges_of (if length xs = 1 then xs ! 0 else Sequence xs)))\<^sup>+"
  proof (cases "length xs = 1")
    case True
    with k(1) ok have "e \<in> set (edges_of (xs ! 0))" by auto
    from r_into_trancl'[OF this] True show ?thesis by simp
  next
    case False
    from ok have "e \<in> (set (edges_of (Sequence xs)))\<^sup>+"
    proof
      assume "e \<in> set (edges_of (xs ! k))"
      with Sequence_child_edges[OF all, of "xs ! k"] k(1)
      have "e \<in> set (edges_of (Sequence xs))" by auto
      then show ?thesis by (rule r_into_trancl')
    next
      assume "u \<in> set (leaves (take k xs))"
      then obtain c where "c \<in> set (take k xs)" "u \<in> set (extract_nodes c)" by auto
      then obtain j where "j < length (take k xs)" "u \<in> set (extract_nodes (take k xs ! j))"
        by (metis in_set_conv_nth)
      then have j: "j < k" "u \<in> set (extract_nodes (xs ! j))" by simp_all
      from Sequence_ordered[OF all j(1) k(1) j(2) k(2)] uv show ?thesis by simp
    qed
    with False show ?thesis by simp
  qed
qed

lemma layers_inv_initial: "layers_inv g layers 0 ({}, [])"
  by (simp add: layers_inv_def closed_upto_def)

theorem generate_component_structure_acyclic:
  assumes wf: "wf_digraph g" and ac: "acyclic (set (edges g))"
  shows "(nodes g = [] \<and> generate_component_structure g = Some (Inr None)) \<or>
         (\<exists>t. generate_component_structure g = Some (Inr (Some t)) \<and> component_tree g t)"
proof -
  from topological_generations_acyclic(1)[OF wf] ac obtain layers where
    tg: "topological_generations g = Inr layers" by blast
  from topological_generations_layering[OF wf tg] have lay: "layering g {} layers" .
  then have dl: "distinct (concat layers)" and sl: "set (concat layers) = set (nodes g)"
    and ne: "[] \<notin> set layers" by (simp_all add: layering_def)
  show ?thesis
  proof (cases "layers = []")
    case True
    with sl tg show ?thesis by (simp add: generate_component_structure_def)
  next
    case nonempty: False
    show ?thesis
    proof (cases "length layers = 1 \<and> length (layers ! 0) = 1")
      case True
      define v where "v = layers ! 0 ! 0"
      from True have "layers = [[v]]"
        unfolding v_def by (metis length_one_conv)
      with sl have V: "set (nodes g) = {v}" by simp
      have "set (edges g) = {}"
      proof (rule ccontr)
        assume "set (edges g) \<noteq> {}"
        then obtain e where e: "e \<in> set (edges g)" by (cases "edges g") auto
        with wf V have "e = (v, v)" by (auto simp: wf_digraph_def prod_eq_iff)
        with e ac show False unfolding acyclic_def by blast
      qed
      with V have "component_tree g (Node v)"
        by (simp add: component_tree_def)
      moreover have "generate_component_structure g = Some (Inr (Some (Node v)))"
        using tg True nonempty by (simp add: generate_component_structure_def v_def)
      ultimately show ?thesis by blast
    next
      case False
      from process_layers_inv[OF wf lay _ _ layers_inv_initial, of layers "length layers"]
      obtain P xs where
        pl: "process_layers g (length layers) 0 layers ({}, []) = Some (P, xs)"
        and inv: "layers_inv g layers (length layers) (P, xs)"
        by (metis drop_0 le0 prod.collapse)
      note I = layers_invD[OF inv]
      from I(2,3,5) sl have lv: "set (leaves xs) = set (nodes g)" by auto
      define t where "t = (if length xs = 1 then xs ! 0 else Sequence xs)"
      from nonempty ne obtain w where "w \<in> set (concat layers)"
        by (cases layers; cases "hd layers") auto
      with sl lv have xne: "xs \<noteq> []" by auto
      have lt: "extract_nodes t = leaves xs"
      proof (cases "length xs = 1")
        case True
        then have "xs = [xs ! 0]" by (simp add: length_one_conv[symmetric])
        then have "leaves xs = extract_nodes (xs ! 0)"
          by (metis append_Nil2 concat.simps(1) concat.simps(2) list.simps(8) list.simps(9))
        with True show ?thesis by (simp add: t_def)
      next
        case False
        then show ?thesis by (simp add: t_def)
      qed
      have nt: "nonempty_children t"
        using I(6) xne unfolding t_def by (auto simp: in_set_conv_nth)
      from structure_edges[OF wf I(6) lv] have "set (edges g) \<subseteq> (set (edges_of t))\<^sup>+"
        by (simp add: t_def)
      with nt lt I(1) lv have "component_tree g t" by (simp add: component_tree_def)
      moreover from False
      have nb: "(length layers = Suc 0 \<and> length (layers ! 0) = Suc 0) = False" by simp
      have "generate_component_structure g = Some (Inr (Some t))"
        using tg nonempty pl by (simp add: generate_component_structure_def t_def nb)
      ultimately show ?thesis by blast
    qed
  qed
qed

theorem generate_component_structure_cycle:
  assumes wf: "wf_digraph g" and cyc: "\<not> acyclic (set (edges g))"
  shows "generate_component_structure g = Some (Inl ValueError)"
  using topological_generations_acyclic(2)[OF wf] cyc
  by (simp add: generate_component_structure_def)

section \<open>Components, and the whole graph\<close>

lemma neighbours_adjacent: "neighbours g v = {w. (v, w) \<in> adjacent g}"
  by (auto simp: neighbours_def adjacent_def set_successors set_predecessors)

lemma sym_adjacent: "sym (adjacent g)"
  by (auto simp: adjacent_def sym_def)

lemma reach_refl: "v \<in> reach g v"
  by (simp add: reach_def)

lemma reach_sym: "w \<in> reach g v \<Longrightarrow> v \<in> reach g w"
  unfolding reach_def using sym_adjacent[of g] by (simp add: sym_rtrancl symD)

lemma reach_trans: "w \<in> reach g v \<Longrightarrow> x \<in> reach g w \<Longrightarrow> x \<in> reach g v"
  unfolding reach_def by auto

lemma reach_eq: "w \<in> reach g v \<Longrightarrow> reach g w = reach g v"
  using reach_sym reach_trans by blast

lemma reach_step: "w \<in> reach g v \<Longrightarrow> x \<in> neighbours g w \<Longrightarrow> x \<in> reach g v"
  unfolding reach_def neighbours_adjacent by auto

lemma reach_least:
  assumes "v \<in> S" "\<forall>x \<in> S. neighbours g x \<subseteq> S"
  shows "reach g v \<subseteq> S"
proof
  fix w assume "w \<in> reach g v"
  then have "(v, w) \<in> (adjacent g)\<^sup>*" by (simp add: reach_def)
  then show "w \<in> S"
  proof (induction rule: rtrancl_induct)
    case base
    from assms(1) show ?case .
  next
    case (step y z)
    then have "z \<in> neighbours g y" by (simp add: neighbours_adjacent)
    with step.IH assms(2) show ?case by auto
  qed
qed

lemma plain_bfs_inv: "bfs_inv g v seen lvl \<Longrightarrow> plain_bfs g seen lvl = reach g v"
proof (induction g seen lvl rule: plain_bfs.induct)
  case (1 g seen lvl)
  from "1.prems" have v: "v \<in> seen" and ls: "set lvl \<subseteq> seen" and sr: "seen \<subseteq> reach g v"
    and cl: "\<forall>x \<in> seen - set lvl. neighbours g x \<subseteq> seen" by (simp_all add: bfs_inv_def)
  show ?case
  proof (cases "lvl = []")
    case True
    with cl have "\<forall>x \<in> seen. neighbours g x \<subseteq> seen" by simp
    from reach_least[OF v this] sr have "seen = reach g v" by auto
    with True show ?thesis by (subst plain_bfs.simps) simp
  next
    case False
    obtain seen' nxt where f: "foldl (expand g) (seen, []) lvl = (seen', nxt)"
      by (cases "foldl (expand g) (seen, []) lvl")
    from expand_fold[OF f] have s': "seen' = seen \<union> (\<Union>x \<in> set lvl. neighbours g x)"
      and n': "set nxt = (\<Union>x \<in> set lvl. neighbours g x) - seen" by auto
    have "bfs_inv g v seen' nxt"
      unfolding bfs_inv_def
    proof (intro conjI ballI)
      show "v \<in> seen'" using v s' by simp
      show "set nxt \<subseteq> seen'" using s' n' by auto
      show "seen' \<subseteq> reach g v" using s' sr ls reach_step by blast
    next
      fix x assume "x \<in> seen' - set nxt"
      with s' n' have x: "x \<in> seen" by auto
      show "neighbours g x \<subseteq> seen'"
      proof (cases "x \<in> set lvl")
        case True
        with s' show ?thesis by auto
      next
        case False
        with x cl s' show ?thesis by auto
      qed
    qed
    from "1.IH"[OF False f[symmetric] this] False f show ?thesis
      by (subst plain_bfs.simps) simp
  qed
qed

lemma plain_bfs_reach: "plain_bfs g {v} [v] = reach g v"
  by (rule plain_bfs_inv) (simp add: bfs_inv_def reach_refl)

lemma components_loop_correct:
  "\<forall>x \<in> seen. reach g x \<subseteq> seen \<Longrightarrow>
   (\<forall>c \<in> set (components_loop g vs seen). \<exists>v \<in> set vs. c = reach g v \<and> c \<inter> seen = {}) \<and>
   disjoint_list (components_loop g vs seen) \<and>
   set vs \<subseteq> seen \<union> \<Union> (set (components_loop g vs seen))"
proof (induction vs arbitrary: seen)
  case Nil
  then show ?case by simp
next
  case (Cons v vs)
  show ?case
  proof (cases "v \<in> seen")
    case True
    with Cons.IH[OF Cons.prems] show ?thesis by auto
  next
    case False
    let ?c = "reach g v"
    have dj: "?c \<inter> seen = {}"
    proof (rule ccontr)
      assume "?c \<inter> seen \<noteq> {}"
      then obtain w where w: "w \<in> ?c" "w \<in> seen" by auto
      from reach_sym[OF w(1)] Cons.prems w(2) have "v \<in> seen" by auto
      with False show False ..
    qed
    have cl: "\<forall>x \<in> seen \<union> ?c. reach g x \<subseteq> seen \<union> ?c"
      using Cons.prems reach_eq by auto
    note IH = Cons.IH[OF cl]
    have eq: "components_loop g (v # vs) seen = ?c # components_loop g vs (seen \<union> ?c)"
      using False by (simp add: plain_bfs_reach Let_def)
    have 1: "\<forall>c \<in> set (components_loop g (v # vs) seen).
        \<exists>w \<in> set (v # vs). c = reach g w \<and> c \<inter> seen = {}"
      unfolding eq using IH dj by auto
    have 2: "disjoint_list (components_loop g (v # vs) seen)"
      unfolding eq using IH by auto
    have 3: "set (v # vs) \<subseteq> seen \<union> \<Union> (set (components_loop g (v # vs) seen))"
      unfolding eq using IH reach_refl[of v g] by auto
    from 1 2 3 show ?thesis by blast
  qed
qed

lemma weakly_connected_components_correct:
  "(\<forall>c \<in> set (weakly_connected_components g). \<exists>v \<in> set (nodes g). c = reach g v) \<and>
   disjoint_list (weakly_connected_components g) \<and>
   set (nodes g) \<subseteq> \<Union> (set (weakly_connected_components g))"
  using components_loop_correct[of "{}" g "nodes g"]
  unfolding weakly_connected_components_def by auto

lemma reach_finite: "finite (reach g v)"
proof -
  have "reach g v \<subseteq> insert v (snd ` adjacent g)"
  proof
    fix w assume "w \<in> reach g v"
    then have "(v, w) \<in> (adjacent g)\<^sup>*" by (simp add: reach_def)
    then show "w \<in> insert v (snd ` adjacent g)"
      by (cases rule: rtranclE) force+
  qed
  moreover have "finite (adjacent g)" by (simp add: adjacent_def)
  ultimately show ?thesis by (meson finite_imageI finite_insert finite_subset)
qed

lemma component_finite:
  assumes "c \<in> set (weakly_connected_components g)"
  shows "finite c"
proof -
  from weakly_connected_components_correct[of g] assms obtain v where "c = reach g v" by blast
  then show ?thesis by (simp add: reach_finite)
qed

lemma set_iteration_sorted: "set_iteration sorted_list_of_set"
  by (simp add: set_iteration_def)


lemma nodes_subgraph:
  assumes "set_iteration set_iter" "finite c"
  shows "set (nodes (subgraph set_iter g c)) = set (nodes g) \<inter> c"
proof -
  from assms have "set (set_iter c) = c" by (simp add: set_iteration_def)
  then show ?thesis by (auto simp: subgraph_def)
qed

lemma edges_subgraph:
  "set (edges (subgraph set_iter g c)) = {e \<in> set (edges g). fst e \<in> c \<and> snd e \<in> c}"
  by (auto simp: subgraph_def)

lemma wf_subgraph:
  assumes wf: "wf_digraph g" and si: "set_iteration set_iter" and fin: "finite c"
  shows "wf_digraph (subgraph set_iter g c)"
proof -
  from si fin have "distinct (set_iter c)" by (simp add: set_iteration_def)
  with wf have "distinct (nodes (subgraph set_iter g c))"
    by (simp add: subgraph_def wf_digraph_def)
  moreover from wf have "distinct (edges (subgraph set_iter g c))"
    by (simp add: subgraph_def wf_digraph_def)
  moreover from wf have "\<forall>e \<in> set (edges (subgraph set_iter g c)).
      fst e \<in> set (nodes (subgraph set_iter g c)) \<and> snd e \<in> set (nodes (subgraph set_iter g c))"
    unfolding nodes_subgraph[OF si fin] edges_subgraph by (auto simp: wf_digraph_def)
  ultimately show ?thesis by (simp add: wf_digraph_def)
qed

lemma acyclic_subgraph: "acyclic (set (edges g)) \<Longrightarrow> acyclic (set (edges (subgraph set_iter g c)))"
  by (rule acyclic_subset) (auto simp: edges_subgraph)

lemma reach_closed:
  assumes "e \<in> set (edges g)" "fst e \<in> reach g v \<or> snd e \<in> reach g v"
  shows "fst e \<in> reach g v \<and> snd e \<in> reach g v"
proof -
  from assms(1) have "snd e \<in> neighbours g (fst e)" "fst e \<in> neighbours g (snd e)"
    by (auto simp: neighbours_def set_successors set_predecessors)
  with assms(2) reach_step show ?thesis by blast
qed

lemma edge_in_component:
  assumes wf: "wf_digraph g" and e: "e \<in> set (edges g)"
  shows "\<exists>c \<in> set (weakly_connected_components g). e \<in> set (edges (subgraph set_iter g c))"
proof -
  from wf e have "fst e \<in> set (nodes g)" by (simp add: wf_digraph_def)
  with weakly_connected_components_correct[of g] obtain c where
    c: "c \<in> set (weakly_connected_components g)" "fst e \<in> c" by blast
  with weakly_connected_components_correct[of g] obtain v where "c = reach g v" by blast
  with reach_closed[OF e, of v] c(2) have "fst e \<in> c \<and> snd e \<in> c" by simp
  with e c(1) show ?thesis by (auto simp: edges_subgraph)
qed

lemma component_nonempty:
  assumes c: "c \<in> set (weakly_connected_components g)" and si: "set_iteration set_iter"
  shows "nodes (subgraph set_iter g c) \<noteq> []"
proof -
  from weakly_connected_components_correct[of g] c obtain v where
    v: "v \<in> set (nodes g)" "c = reach g v" by blast
  have "set (nodes (subgraph set_iter g c)) = set (nodes g) \<inter> c"
    by (rule nodes_subgraph[OF si component_finite[OF c]])
  with v reach_refl[of v g] have "v \<in> set (nodes (subgraph set_iter g c))" by simp
  then show ?thesis by auto
qed

lemma cycle_in_component:
  assumes wf: "wf_digraph g" and cyc: "\<not> acyclic (set (edges g))"
  shows "\<exists>c \<in> set (weakly_connected_components g). \<not> acyclic (set (edges (subgraph set_iter g c)))"
proof -
  from cyc obtain x where x: "(x, x) \<in> (set (edges g))\<^sup>+" by (auto simp: acyclic_def)
  then obtain y where "(x, y) \<in> set (edges g)" by (meson tranclD)
  with wf have "x \<in> set (nodes g)" by (force simp: wf_digraph_def)
  with weakly_connected_components_correct[of g] obtain c where
    c: "c \<in> set (weakly_connected_components g)" "x \<in> c" by blast
  with weakly_connected_components_correct[of g] obtain v where v: "c = reach g v" by blast
  have "(x, z) \<in> (set (edges g))\<^sup>+ \<Longrightarrow> (x, z) \<in> (set (edges (subgraph set_iter g c)))\<^sup>+ \<and> z \<in> c" for z
  proof (induction rule: trancl_induct)
    case (base y)
    with reach_closed[of "(x, y)" g v] c(2) v have "y \<in> c" by simp
    with base c(2) show ?case by (auto simp: edges_subgraph)
  next
    case (step y z)
    with reach_closed[of "(y, z)" g v] v have "z \<in> c" by simp
    with step have "(y, z) \<in> set (edges (subgraph set_iter g c))" by (simp add: edges_subgraph)
    with step.IH \<open>z \<in> c\<close> show ?case by (meson trancl.trancl_into_trancl)
  qed
  from this[OF x] have "\<not> acyclic (set (edges (subgraph set_iter g c)))" by (auto simp: acyclic_def)
  with c(1) show ?thesis by blast
qed

lemma component_structures_loop_cycle:
  "\<forall>c \<in> set comps. wf_digraph (subgraph set_iter g c) \<Longrightarrow>
   \<exists>c \<in> set comps. \<not> acyclic (set (edges (subgraph set_iter g c))) \<Longrightarrow>
   component_structures_loop set_iter g comps acc = Some (Inl ValueError)"
proof (induction comps arbitrary: acc)
  case Nil
  then show ?case by simp
next
  case (Cons c comps)
  then have wf: "wf_digraph (subgraph set_iter g c)" by simp
  show ?case
  proof (cases "acyclic (set (edges (subgraph set_iter g c)))")
    case False
    from generate_component_structure_cycle[OF wf False] show ?thesis by simp
  next
    case True
    from generate_component_structure_acyclic[OF wf True] obtain r where
      r: "generate_component_structure (subgraph set_iter g c) = Some (Inr r)" by blast
    from Cons.prems True have "\<exists>c \<in> set comps. \<not> acyclic (set (edges (subgraph set_iter g c)))" by auto
    from Cons.IH[OF _ this] Cons.prems(1) r show ?thesis by simp
  qed
qed

theorem dot2mr_main_cycle:
  assumes wf: "wf_digraph g" and cyc: "\<not> acyclic (set (edges g))"
    and si: "set_iteration set_iter"
  shows "dot2mr_main set_iter g = Some (Inl ValueError)"
proof -
  have "component_structures_loop set_iter g (weakly_connected_components g) [] = Some (Inl ValueError)"
    using cycle_in_component[OF wf cyc] wf_subgraph[OF wf si component_finite]
    by (intro component_structures_loop_cycle) auto
  then show ?thesis by (simp add: dot2mr_main_def)
qed

lemma component_structures_loop_acyclic:
  "\<forall>c \<in> set comps. \<exists>t. generate_component_structure (subgraph set_iter g c) = Some (Inr (Some t)) \<and>
      component_tree (subgraph set_iter g c) t \<Longrightarrow>
   \<exists>ts. component_structures_loop set_iter g comps acc = Some (Inr (acc @ map Some ts)) \<and>
        list_all2 (\<lambda>c t. component_tree (subgraph set_iter g c) t) comps ts"
proof (induction comps arbitrary: acc)
  case Nil
  then show ?case by simp
next
  case (Cons c comps)
  then obtain t where t: "generate_component_structure (subgraph set_iter g c) = Some (Inr (Some t))"
    "component_tree (subgraph set_iter g c) t" by auto
  from Cons.IH[of "acc @ [Some t]"] Cons.prems obtain ts where
    ts: "component_structures_loop set_iter g comps (acc @ [Some t]) = Some (Inr ((acc @ [Some t]) @ map Some ts))"
      "list_all2 (\<lambda>c t. component_tree (subgraph set_iter g c) t) comps ts" by auto
  with t show ?case by (intro exI[of _ "t # ts"]) simp
qed

lemma those_map_Some: "those (map Some xs) = Some xs"
  by (induction xs) auto

lemma component_leaves_distinct:
  assumes si: "set_iteration set_iter"
  shows "list_all2 (\<lambda>c t. component_tree (subgraph set_iter g c) t) comps ts \<Longrightarrow>
   disjoint_list comps \<Longrightarrow> \<forall>c \<in> set comps. finite c \<Longrightarrow>
   distinct (leaves ts) \<and> set (leaves ts) = set (nodes g) \<inter> \<Union> (set comps)"
proof (induction rule: list_all2_induct)
  case Nil
  then show ?case by simp
next
  case (Cons c comps t ts)
  from Cons.prems have fin: "finite c" and fins: "\<forall>c \<in> set comps. finite c" by simp_all
  from Cons.hyps(1) have d: "distinct (extract_nodes t)"
    and s: "set (extract_nodes t) = set (nodes g) \<inter> c"
    by (simp_all add: component_tree_def nodes_subgraph[OF si fin])
  from Cons.prems have dj: "\<forall>d \<in> set comps. c \<inter> d = {}" and dl: "disjoint_list comps" by simp_all
  from Cons.IH[OF dl fins] have IH: "distinct (leaves ts)"
    "set (leaves ts) = set (nodes g) \<inter> \<Union> (set comps)" by simp_all
  have "set (extract_nodes t) \<inter> set (leaves ts) = {}"
    unfolding s IH(2) using dj by auto
  with d s IH show ?case by auto
qed

theorem dot2mr_main_acyclic:
  assumes wf: "wf_digraph g" and ac: "acyclic (set (edges g))"
    and si: "set_iteration set_iter"
  shows "(nodes g = [] \<and> dot2mr_main set_iter g = Some (Inr None)) \<or>
         (\<exists>t. dot2mr_main set_iter g = Some (Inr (Some t)) \<and> component_tree g t)"
proof -
  let ?comps = "weakly_connected_components g"
  note W = weakly_connected_components_correct[of g]
  have each: "\<forall>c \<in> set ?comps. \<exists>t.
      generate_component_structure (subgraph set_iter g c) = Some (Inr (Some t)) \<and>
      component_tree (subgraph set_iter g c) t"
  proof
    fix c assume c: "c \<in> set ?comps"
    from generate_component_structure_acyclic[OF
        wf_subgraph[OF wf si component_finite[OF c]] acyclic_subgraph[OF ac]]
      component_nonempty[OF c si]
    show "\<exists>t. generate_component_structure (subgraph set_iter g c) = Some (Inr (Some t)) \<and>
      component_tree (subgraph set_iter g c) t" by blast
  qed
  from component_structures_loop_acyclic[OF each, of "[]"] obtain ts where
    loop: "component_structures_loop set_iter g ?comps [] = Some (Inr (map Some ts))"
    and all2: "list_all2 (\<lambda>c t. component_tree (subgraph set_iter g c) t) ?comps ts" by auto
  from component_leaves_distinct[OF si all2] W component_finite[of _ g]
  have dl: "distinct (leaves ts)" and sl: "set (leaves ts) = set (nodes g)" by auto
  have ne: "\<forall>t \<in> set ts. nonempty_children t"
    using all2 by (auto simp: list_all2_conv_all_nth in_set_conv_nth component_tree_def)
  have edges: "\<forall>e \<in> set (edges g). \<exists>t \<in> set ts. e \<in> (set (edges_of t))\<^sup>+"
  proof
    fix e assume "e \<in> set (edges g)"
    from edge_in_component[OF wf this] obtain c where
      c: "c \<in> set ?comps" "e \<in> set (edges (subgraph set_iter g c))" by blast
    then obtain k where k: "k < length ?comps" "?comps ! k = c" by (metis in_set_conv_nth)
    with all2 have "component_tree (subgraph set_iter g c) (ts ! k)" "k < length ts"
      by (auto simp: list_all2_conv_all_nth)
    with c(2) have "e \<in> (set (edges_of (ts ! k)))\<^sup>+" "ts ! k \<in> set ts"
      by (auto simp: component_tree_def)
    then show "\<exists>t \<in> set ts. e \<in> (set (edges_of t))\<^sup>+" by blast
  qed
  consider (none) "ts = []" | (one) "length ts = 1" | (many) "length ts > 1"
    by (cases ts) (auto simp: less_Suc_eq_0_disj)
  then show ?thesis
  proof cases
    case none
    with sl loop show ?thesis by (simp add: dot2mr_main_def)
  next
    case one
    then have ts: "ts = [ts ! 0]" by (simp add: length_one_conv[symmetric])
    then have l: "leaves ts = extract_nodes (ts ! 0)"
      by (metis append_Nil2 concat.simps(1) concat.simps(2) list.simps(8) list.simps(9))
    from ts have s: "set ts = {ts ! 0}" by (metis empty_set list.simps(15))
    from edges s have "set (edges g) \<subseteq> (set (edges_of (ts ! 0)))\<^sup>+" by auto
    with ne s dl sl l have "component_tree g (ts ! 0)" by (simp add: component_tree_def)
    moreover from one loop have "dot2mr_main set_iter g = Some (Inr (Some (ts ! 0)))"
      by (simp add: dot2mr_main_def)
    ultimately show ?thesis by blast
  next
    case many
    then have tne: "ts \<noteq> []" by auto
    have "set (edges g) \<subseteq> (set (edges_of (Parallel ts)))\<^sup>+"
    proof
      fix e assume "e \<in> set (edges g)"
      with edges obtain t where t: "t \<in> set ts" "e \<in> (set (edges_of t))\<^sup>+" by blast
      from t(1) have "set (edges_of t) \<subseteq> set (edges_of (Parallel ts))"
        by (auto simp: edges_of_Parallel[OF ne])
      from trancl_mono[OF _ this] t(2) show "e \<in> (set (edges_of (Parallel ts)))\<^sup>+"
        by (cases e) blast
    qed
    with ne tne dl sl have "component_tree g (Parallel ts)" by (simp add: component_tree_def)
    moreover from many loop have "dot2mr_main set_iter g = Some (Inr (Some (Parallel ts)))"
      by (simp add: dot2mr_main_def those_map_Some)
    ultimately show ?thesis by blast
  qed
qed

section \<open>Transitive closure\<close>

lemma trancl_subset_trancl:
  assumes "r \<subseteq> s\<^sup>+"
  shows "r\<^sup>+ \<subseteq> s\<^sup>+"
proof
  fix e assume "e \<in> r\<^sup>+"
  then have "(fst e, snd e) \<in> r\<^sup>+" by simp
  then have "(fst e, snd e) \<in> s\<^sup>+"
  proof (induction rule: trancl_induct)
    case (base y)
    with assms show ?case by auto
  next
    case (step y z)
    with assms have "(y, z) \<in> s\<^sup>+" by auto
    with step.IH show ?case by (rule trancl_trans)
  qed
  then show "e \<in> s\<^sup>+" by simp
qed

section \<open>The same graph, stored in another order\<close>































lemma same_graph_acyclic:
  "same_graph g1 g2 \<Longrightarrow> acyclic (set (edges g1)) \<longleftrightarrow> acyclic (set (edges g2))"
  by (simp add: same_graph_def)















section \<open>The examples of the specification\<close>

text \<open>
  C4. The diamond with tasks A, B, C, D and edges A\<rightarrow>B, A\<rightarrow>C, B\<rightarrow>D, C\<rightarrow>D structures to
  Sequence {A, Parallel {B, C}, D}, and flattening that tree writes exactly the four edges
  of the diamond: neither A\<rightarrow>D nor B\<rightarrow>C is among them.
\<close>

theorem diamond_structure_and_flatten:
  "dot2mr_main set_iter diamond =
     Some (Inr (Some (Sequence [Node ''A'', Parallel [Node ''B'', Node ''C''], Node ''D''])))
   \<and> flatten (Sequence [Node ''A'', Parallel [Node ''B'', Node ''C''], Node ''D'']) =
       Inr ([''A'', ''B'', ''C'', ''D''],
            [(''A'', ''B''), (''A'', ''C''), (''B'', ''D''), (''C'', ''D'')])
   \<and> set [(''A'', ''B''), (''A'', ''C''), (''B'', ''D''), (''C'', ''D'')] = set (edges diamond)
   \<and> (''A'', ''D'') \<notin> set (edges diamond) \<and> (''B'', ''C'') \<notin> set (edges diamond)"
  by code_simp


lemma single_node: "dot2mr_main set_iter \<lparr>nodes = [n], edges = []\<rparr> = Some (Inr (Some (Node n)))"
  by (simp add: dot2mr_main_def weakly_connected_components_def subgraph_def
      generate_component_structure_def topological_generations_def in_degree_def
      predecessors_def expand_def successors_def generations_loop.simps plain_bfs.simps)

lemma diamond_structure:
  "dot2mr_main set_iter diamond =
     Some (Inr (Some (Sequence [Node ''A'', Parallel [Node ''B'', Node ''C''], Node ''D''])))"
  by code_simp

text \<open>
  C10. The structurer returns no Sequence and no Parallel with exactly one child, at any
  depth of the tree; and a graph with one task and no edge structures to the bare leaf.
  Both hold in whatever order Python iterates over the components.
\<close>

theorem structure_no_singleton_wrapper:
  "(dot2mr_main set_iter g = Some (Inr (Some t)) \<longrightarrow> no_singleton t)
   \<and> dot2mr_main set_iter \<lparr>nodes = [n], edges = []\<rparr> = Some (Inr (Some (Node n)))"
  using dot2mr_main_no_singleton single_node by blast

theorem structure_no_singleton_wrapper_witness:
  "dot2mr_main sorted_list_of_set diamond =
     Some (Inr (Some (Sequence [Node ''A'', Parallel [Node ''B'', Node ''C''], Node ''D''])))
   \<and> no_singleton (Sequence [Node ''A'', Parallel [Node ''B'', Node ''C''], Node ''D''])"
  using structure_no_singleton_wrapper[of sorted_list_of_set diamond _ "''A''"]
    diamond_structure[of sorted_list_of_set] by blast

text \<open>
  C5. For every tree whose Sequences and Parallels have a child: the entry points of a leaf
  are the leaf, of a Sequence the entry points of its first child, of a Parallel the union
  of its children's entry points. A leaf has no edges and exits itself. A Parallel has the
  union of its children's edges and of their exits. A Sequence has its children's edges
  and, for every two consecutive children, every edge from an exit of the earlier to an
  entry of the later; its exits are those of its last child.
\<close>

theorem flattener_helpers:
  assumes "nonempty_children t"
  shows "case t of
      Node n \<Rightarrow> extract_entry_nodes t = [n] \<and> generate_edges t = Inr ([], Some [n])
    | Sequence cs \<Rightarrow>
        extract_entry_nodes t = extract_entry_nodes (hd cs) \<and>
        (\<forall>c \<in> set cs. generate_edges c = Inr (edges_of c, Some (exits_of c))) \<and>
        (\<exists>es. generate_edges t = Inr (es, Some (exits_of (last cs))) \<and>
           set es =
             (\<Union>c \<in> set cs. set (edges_of c)) \<union>
             (\<Union>i \<in> {..<length cs - 1}.
                set (exits_of (cs ! i)) \<times> set (extract_entry_nodes (cs ! (i + 1)))))
    | Parallel cs \<Rightarrow>
        set (extract_entry_nodes t) = (\<Union>c \<in> set cs. set (extract_entry_nodes c)) \<and>
        (\<forall>c \<in> set cs. generate_edges c = Inr (edges_of c, Some (exits_of c))) \<and>
        (\<exists>es xs. generate_edges t = Inr (es, Some xs) \<and>
           set es = (\<Union>c \<in> set cs. set (edges_of c)) \<and>
           set xs = (\<Union>c \<in> set cs. set (exits_of c)))"
proof (cases t)
  case (Node n)
  then show ?thesis by simp
next
  case (Sequence cs)
  with assms have ne: "cs \<noteq> []" and all: "\<forall>c \<in> set cs. returns_exits c"
    by (auto intro: nonempty_children_returns)
  from ne have entry: "extract_entry_nodes (Sequence cs) = extract_entry_nodes (hd cs)"
    by (cases cs) simp_all
  from all have ex: "\<forall>c \<in> set cs. exits_of c \<noteq> []" by (simp add: returns_exits_def)
  have "generate_edges (Sequence cs) = Inr (sequence_edges None cs, Some (exits_of (last cs)))"
    using sequence_loop_returns[OF all, of "[]" None] ne by simp
  moreover have "set (sequence_edges None cs) =
             (\<Union>c \<in> set cs. set (edges_of c)) \<union>
             (\<Union>i \<in> {..<length cs - 1}.
                set (exits_of (cs ! i)) \<times> set (extract_entry_nodes (cs ! (i + 1))))"
    using set_sequence_edges[OF ex, of None] by (simp add: truthy_def)
  ultimately show ?thesis using Sequence entry all by (simp add: returns_exits_def)
next
  case (Parallel cs)
  with assms have all: "\<forall>c \<in> set cs. returns_exits c"
    by (auto intro: nonempty_children_returns)
  from parallel_loop_returns[OF all, of "[]" "[]"] Parallel all show ?thesis
    by (simp add: returns_exits_def)
qed

theorem flattener_helpers_witness:
  "nonempty_children (Sequence [Node ''A'', Parallel [Node ''B'', Node ''C''], Node ''D''])
   \<and> extract_entry_nodes (Sequence [Node ''A'', Parallel [Node ''B'', Node ''C''], Node ''D'']) =
       extract_entry_nodes (hd [Node ''A'', Parallel [Node ''B'', Node ''C''], Node ''D''])
   \<and> (\<exists>es. generate_edges (Sequence [Node ''A'', Parallel [Node ''B'', Node ''C''], Node ''D'']) =
          Inr (es, Some (exits_of (last [Node ''A'', Parallel [Node ''B'', Node ''C''], Node ''D'']))))"
proof -
  have h: "nonempty_children (Sequence [Node ''A'', Parallel [Node ''B'', Node ''C''], Node ''D''])"
    by simp
  from flattener_helpers[OF h] h show ?thesis
    unfolding tree.case by blast
qed




text \<open>
  C7, as stated, fails: for Sequence {C, B, A} the edges are written C\<rightarrow>B, then B\<rightarrow>A, which
  is not sorted order.
\<close>

theorem flatten_edges_unsorted_counterexample:
  "nonempty_children (Sequence [Node ''C'', Node ''B'', Node ''A''])
   \<and> distinct (extract_nodes (Sequence [Node ''C'', Node ''B'', Node ''A'']))
   \<and> flatten (Sequence [Node ''C'', Node ''B'', Node ''A'']) =
       Inr ([''A'', ''B'', ''C''], [(''C'', ''B''), (''B'', ''A'')])
   \<and> \<not> sorted [(''C'', ''B''), (''B'', ''A'')]"
  by code_simp

text \<open>
  C7, amended. For every tree whose Sequences and Parallels have a child, the flattener
  returns the names of all leaves, each once and in sorted order, and the edges of
  \<open>generate_edges\<close>, each once and in the order of its first occurrence there.
\<close>

theorem flatten_emits:
  assumes "nonempty_children t"
  shows "\<exists>ns es. flatten t = Inr (ns, es) \<and>
           sorted ns \<and> distinct ns \<and> set ns = set (extract_nodes t) \<and>
           distinct es \<and> set es = set (edges_of t) \<and> es = rev (remdups (rev (edges_of t)))"
proof -
  from nonempty_children_returns[OF assms]
  have "generate_edges t = Inr (edges_of t, Some (exits_of t))" by (simp add: returns_exits_def)
  then have "flatten t = Inr (sorted_list_of_set (set (extract_nodes t)), emit_edges (edges_of t) {})"
    by (simp add: flatten_def)
  from this flatten_result[OF this] show ?thesis by blast
qed

theorem flatten_emits_witness:
  "nonempty_children (Sequence [Node ''C'', Node ''B'', Node ''A''])
   \<and> (\<exists>ns es. flatten (Sequence [Node ''C'', Node ''B'', Node ''A'']) = Inr (ns, es) \<and>
           sorted ns \<and> distinct ns \<and>
           set ns = set (extract_nodes (Sequence [Node ''C'', Node ''B'', Node ''A''])) \<and>
           distinct es \<and> set es = set (edges_of (Sequence [Node ''C'', Node ''B'', Node ''A''])) \<and>
           es = rev (remdups (rev (edges_of (Sequence [Node ''C'', Node ''B'', Node ''A''])))))"
proof -
  have h: "nonempty_children (Sequence [Node ''C'', Node ''B'', Node ''A''])" by simp
  from flatten_emits[OF h] h show ?thesis by blast
qed

section \<open>The structurer on every graph\<close>

lemma triangle_structure: "dot2mr_main set_iter triangle = Some (Inl CycleError)"
  by code_simp

lemma n_graph_structure:
  "dot2mr_main set_iter n_graph =
     Some (Inr (Some (Sequence [Parallel [Node ''A'', Node ''B''],
                                Parallel [Node ''C'', Node ''D'']])))"
  by code_simp

text \<open>
  C2. Every graph with a directed cycle, and the triangle A\<rightarrow>B, B\<rightarrow>C, C\<rightarrow>A in particular,
  ends \<open>main\<close> with the cycle error: the result is the error alone, no tree and no part of
  one. This holds in whatever order Python iterates over the components.
\<close>

theorem structure_cycle:
  "(wf_digraph g \<and> \<not> acyclic (set (edges g)) \<and> set_iteration set_iter \<longrightarrow>
      dot2mr_main set_iter g = Some (Inl CycleError))
   \<and> dot2mr_main set_iter triangle = Some (Inl CycleError)"
  using dot2mr_main_cycle[of g set_iter] triangle_structure[of set_iter] by blast

theorem structure_cycle_witness:
  "wf_digraph triangle \<and> \<not> acyclic (set (edges triangle)) \<and> set_iteration sorted_list_of_set
   \<and> dot2mr_main sorted_list_of_set triangle = Some (Inl CycleError)"
proof -
  have w: "wf_digraph triangle" by code_simp
  have "topological_generations triangle = Inl NetworkXUnfeasible" by code_simp
  with topological_generations_acyclic(2)[OF w] have c: "\<not> acyclic (set (edges triangle))" by simp
  from structure_cycle[of triangle sorted_list_of_set] w c set_iteration_sorted
  show ?thesis by blast
qed

text \<open>
  C9. For every acyclic graph with at least one task, the structurer returns a tree, and
  the names of its leaves are the tasks of the graph, each exactly once. This holds in
  whatever order Python iterates over the components.
\<close>

theorem structure_partition:
  assumes "wf_digraph g" "acyclic (set (edges g))" "nodes g \<noteq> []" "set_iteration set_iter"
  shows "\<exists>t. dot2mr_main set_iter g = Some (Inr (Some t)) \<and>
           distinct (extract_nodes t) \<and> set (extract_nodes t) = set (nodes g)"
  using dot2mr_main_acyclic[OF assms(1,2,4)] assms(3) by (auto simp: component_tree_def)

theorem structure_partition_witness:
  "wf_digraph diamond \<and> acyclic (set (edges diamond)) \<and> nodes diamond \<noteq> []
   \<and> set_iteration sorted_list_of_set
   \<and> (\<exists>t. dot2mr_main sorted_list_of_set diamond = Some (Inr (Some t)) \<and>
           distinct (extract_nodes t) \<and> set (extract_nodes t) = set (nodes diamond))"
proof -
  have w: "wf_digraph diamond" by code_simp
  have "topological_generations diamond = Inr [[''A''], [''B'', ''C''], [''D'']]" by code_simp
  with topological_generations_acyclic(1)[OF w] have a: "acyclic (set (edges diamond))" by simp
  have n: "nodes diamond \<noteq> []" by code_simp
  from structure_partition[OF w a n set_iteration_sorted] w a n set_iteration_sorted
  show ?thesis by blast
qed

text \<open>
  C1, as stated, fails: the N-shaped graph structures to
  Sequence {Parallel {A, B}, Parallel {C, D}}, whose flattening has the edge A\<rightarrow>D, while D
  is not reachable from A in the graph.
\<close>

theorem roundtrip_reachability_counterexample:
  "wf_digraph n_graph
   \<and> topological_generations n_graph = Inr [[''A'', ''B''], [''C'', ''D'']]
   \<and> (\<forall>set_iter. dot2mr_main set_iter n_graph =
       Some (Inr (Some (Sequence [Parallel [Node ''A'', Node ''B''],
                                  Parallel [Node ''C'', Node ''D'']]))))
   \<and> flatten (Sequence [Parallel [Node ''A'', Node ''B''], Parallel [Node ''C'', Node ''D'']]) =
       Inr ([''A'', ''B'', ''C'', ''D''],
            [(''A'', ''C''), (''A'', ''D''), (''B'', ''C''), (''B'', ''D'')])
   \<and> (''A'', ''D'') \<in> (set [(''A'', ''C''), (''A'', ''D''), (''B'', ''C''), (''B'', ''D'')])\<^sup>+
   \<and> (''A'', ''D'') \<notin> (set (edges n_graph))\<^sup>+"
proof -
  have "wf_digraph n_graph
   \<and> topological_generations n_graph = Inr [[''A'', ''B''], [''C'', ''D'']]
   \<and> flatten (Sequence [Parallel [Node ''A'', Node ''B''], Parallel [Node ''C'', Node ''D'']]) =
       Inr ([''A'', ''B'', ''C'', ''D''],
            [(''A'', ''C''), (''A'', ''D''), (''B'', ''C''), (''B'', ''D'')])
   \<and> (''A'', ''D'') \<in> (set [(''A'', ''C''), (''A'', ''D''), (''B'', ''C''), (''B'', ''D'')])\<^sup>+
   \<and> (''A'', ''D'') \<notin> (set (edges n_graph))\<^sup>+"
    by code_simp
  with n_graph_structure show ?thesis by blast
qed

text \<open>
  C1, amended. For every acyclic graph with at least one task, flattening the structure
  of the graph gives the same node set, and every task reachable from another in the
  graph is reachable from it in the flattened graph. (The flattened graph may order tasks
  the graph leaves unordered.) This holds in whatever order Python iterates over the
  components.
\<close>

theorem roundtrip_keeps_dependencies:
  assumes "wf_digraph g" "acyclic (set (edges g))" "nodes g \<noteq> []" "set_iteration set_iter"
  shows "\<exists>t ns es. dot2mr_main set_iter g = Some (Inr (Some t)) \<and> flatten t = Inr (ns, es) \<and>
           set ns = set (nodes g) \<and> (set (edges g))\<^sup>+ \<subseteq> (set es)\<^sup>+"
proof -
  from dot2mr_main_acyclic[OF assms(1,2,4)] assms(3) obtain t where
    t: "dot2mr_main set_iter g = Some (Inr (Some t))" and ct: "component_tree g t" by auto
  from ct have ne: "nonempty_children t" and lv: "set (extract_nodes t) = set (nodes g)"
    and sub: "set (edges g) \<subseteq> (set (edges_of t))\<^sup>+" by (simp_all add: component_tree_def)
  from nonempty_children_returns[OF ne]
  have "generate_edges t = Inr (edges_of t, Some (exits_of t))" by (simp add: returns_exits_def)
  then have f: "flatten t =
      Inr (sorted_list_of_set (set (extract_nodes t)), emit_edges (edges_of t) {})"
    by (simp add: flatten_def)
  from flatten_result[OF f] have "set (emit_edges (edges_of t) {}) = set (edges_of t)" by simp
  with sub have "(set (edges g))\<^sup>+ \<subseteq> (set (emit_edges (edges_of t) {}))\<^sup>+"
    by (simp add: trancl_subset_trancl)
  with t f lv show ?thesis by auto
qed

theorem roundtrip_keeps_dependencies_witness:
  "wf_digraph n_graph \<and> acyclic (set (edges n_graph)) \<and> nodes n_graph \<noteq> []
   \<and> set_iteration sorted_list_of_set
   \<and> (\<exists>t ns es. dot2mr_main sorted_list_of_set n_graph = Some (Inr (Some t)) \<and>
           flatten t = Inr (ns, es) \<and>
           set ns = set (nodes n_graph) \<and> (set (edges n_graph))\<^sup>+ \<subseteq> (set es)\<^sup>+)"
proof -
  have w: "wf_digraph n_graph" by code_simp
  have "topological_generations n_graph = Inr [[''A'', ''B''], [''C'', ''D'']]" by code_simp
  with topological_generations_acyclic(1)[OF w] have a: "acyclic (set (edges n_graph))" by simp
  have n: "nodes n_graph \<noteq> []" by code_simp
  from roundtrip_keeps_dependencies[OF w a n set_iteration_sorted] w a n set_iteration_sorted
  show ?thesis by blast
qed





end
